theory Spec2Isabelle
  imports Complex_Main "HOL-Library.AList"
begin

section \<open>Data model of \<open>services/data_service.py\<close>\<close>

text \<open>
  A pandas timestamp is a point of a linear order; it is modelled as an integer (a day
  number). A cell of a price table is a float or NaN; NaN is the missing value and is
  modelled as \<open>None\<close>. No arithmetic is ever done on the cells, so a float is modelled
  as a real number.
\<close>

type_synonym timestamp = int

type_synonym cell = "real option"

text \<open>Every exception the service can meet; a result \<open>Inl e\<close> is a raise of \<open>e\<close>.\<close>

datatype exn =
    FileNotFoundError
  | ValueError
  | IndexError
  | DownloadError string

text \<open>
  The column axis of a DataFrame: a flat \<open>Index\<close> of labels, or a \<open>MultiIndex\<close> with a
  number of levels whose labels are tuples (one entry per level).
\<close>

datatype columns_axis =
    Index "string list"
  | MultiIndex nat "string list list"

fun ncols :: "columns_axis \<Rightarrow> nat" where
  "ncols (Index labels) = length labels"
| "ncols (MultiIndex nlevels tuples) = length tuples"

text \<open>
  A DataFrame: the column axis, the row labels (\<open>df.index\<close>), and the values held
  column by column, each column one cell per row label.
\<close>

record frame =
  columns :: columns_axis
  index :: "timestamp list"
  data :: "cell list list"

type_synonym panel = "(string \<times> frame) list"

text \<open>
  \<open>value_at df d j\<close> reads column number \<open>j\<close> of \<open>df\<close> at row label \<open>d\<close>; the result is
  \<open>None\<close> (missing) when the label is not in the index or the cell is NaN.
\<close>

definition value_at :: "frame \<Rightarrow> timestamp \<Rightarrow> nat \<Rightarrow> cell" where
  "value_at df d j =
     (if j < length (data df)
      then (case map_of (zip (index df) (data df ! j)) d of None \<Rightarrow> None | Some c \<Rightarrow> c)
      else None)"

text \<open>\<open>df.empty\<close>: some axis of the DataFrame has length zero.\<close>

definition empty_df :: "frame \<Rightarrow> bool" where
  "empty_df df \<longleftrightarrow> index df = [] \<or> ncols (columns df) = 0"

section \<open>The pandas operations the service calls\<close>

text \<open>
  \<open>MultiIndex.droplevel(1)\<close>: removes the second entry of every label tuple. With two
  levels the result is a flat index of the first entries; with fewer than two levels
  there is no level 1 and pandas raises \<open>IndexError\<close>.
\<close>

fun level0 :: "string list \<Rightarrow> string" where
  "level0 [] = []"
| "level0 (label # rest) = label"

definition droplevel1 :: "nat \<Rightarrow> string list list \<Rightarrow> exn + columns_axis" where
  "droplevel1 nlevels tuples =
     (if nlevels < 2 then Inl IndexError
      else if nlevels = 2 then Inr (Index (map level0 tuples))
      else Inr (MultiIndex (nlevels - 1) (map (\<lambda>t. take 1 t @ drop 2 t) tuples)))"

text \<open>
  \<open>df.reindex(labels)\<close>: conforms the rows to the new labels; a label that the old
  index lacks gets a row of NaN. pandas raises \<open>ValueError\<close> when the old index holds a
  duplicate label (the new labels here are duplicate free and differ from such an index).
\<close>

definition reindex :: "frame \<Rightarrow> timestamp list \<Rightarrow> exn + frame" where
  "reindex df labels =
     (if \<not> distinct (index df) then Inl ValueError
      else Inr (df\<lparr>index := labels,
                   data := map (\<lambda>col. map (\<lambda>d. case map_of (zip (index df) col) d of
                                                    None \<Rightarrow> None | Some c \<Rightarrow> c) labels)
                               (data df)\<rparr>))"

text \<open>
  \<open>df.ffill()\<close>: in every column, going down the rows, a NaN takes the last value seen
  above it; \<open>ffill_col\<close> carries that last value.
\<close>

fun ffill_col :: "cell \<Rightarrow> cell list \<Rightarrow> cell list" where
  "ffill_col last_seen [] = []"
| "ffill_col last_seen (c # cs) =
     (case c of
        None \<Rightarrow> last_seen # ffill_col last_seen cs
      | Some v \<Rightarrow> Some v # ffill_col (Some v) cs)"

definition ffill :: "frame \<Rightarrow> frame" where
  "ffill df = df\<lparr>data := map (ffill_col None) (data df)\<rparr>"

section \<open>The alignment step of \<open>get_price_history\<close> (lines 90 to 106)\<close>

text \<open>
  \<open>all_dates\<close> is the set grown by \<open>all_dates.update(df.index)\<close> over \<open>frames.values()\<close>;
  \<open>complete_dates\<close> is \<open>sorted(all_dates)\<close>.
\<close>

definition all_dates :: "panel \<Rightarrow> timestamp set" where
  "all_dates frames = fold (\<lambda>df acc. acc \<union> set (index df)) (map snd frames) {}"

definition complete_dates :: "panel \<Rightarrow> timestamp list" where
  "complete_dates frames = sorted_list_of_set (all_dates frames)"

text \<open>
  The loop \<open>for symbol in frames\<close>: every frame is reindexed onto the calendar and then
  forward filled, in the order of the dictionary; the first raise ends the loop.
\<close>

fun reindex_all :: "timestamp list \<Rightarrow> panel \<Rightarrow> exn + panel" where
  "reindex_all cal [] = Inr []"
| "reindex_all cal ((symbol, df) # rest) =
     (case reindex df cal of
        Inl e \<Rightarrow> Inl e
      | Inr r \<Rightarrow>
          (case reindex_all cal rest of
             Inl e \<Rightarrow> Inl e
           | Inr rest' \<Rightarrow> Inr ((symbol, ffill r) # rest')))"

definition align :: "panel \<Rightarrow> exn + panel" where
  "align frames =
     (if frames = [] then Inr frames
      else reindex_all (complete_dates frames) frames)"

section \<open>The service: cache, downloads, validation\<close>

text \<open>
  Modelled from the spec: the class \<open>Config\<close> of \<open>config/settings.py\<close> is not among the
  sources. The service reads from it the start of the price history
  (\<open>market.start_date\<close>), the end date (\<open>get_tomorrow_date()\<close>, taken as a value) and the
  keys of the mapping \<open>market.tracked_symbols\<close>, in the order of the mapping.
\<close>

record config =
  start_date :: timestamp
  tomorrow :: timestamp
  tracked_symbols :: "string list"

text \<open>
  \<open>yf.download\<close> is the outside world: what it answers to its \<open>n\<close>-th call overall, for a
  symbol and a date window, is a parameter; it returns a frame or raises.
\<close>

type_synonym provider = "nat \<Rightarrow> string \<Rightarrow> timestamp \<Rightarrow> timestamp \<Rightarrow> exn + frame"

text \<open>
  The service object holds \<open>_price_cache\<close>. \<open>download_log\<close> is the trace of the calls made
  to \<open>yf.download\<close> so far (the symbol of each call, oldest first), kept so that the
  number of calls can be stated.
\<close>

record service =
  price_cache :: "panel option"
  download_log :: "string list"

text \<open>Lines 83 to 85: a frame with \<open>MultiIndex\<close> columns gets level 1 dropped.\<close>

definition handle_multiindex :: "frame \<Rightarrow> exn + frame" where
  "handle_multiindex df =
     (case columns df of
        Index labels \<Rightarrow> Inr df
      | MultiIndex nlevels tuples \<Rightarrow>
          (case droplevel1 nlevels tuples of
             Inl e \<Rightarrow> Inl e
           | Inr c \<Rightarrow> Inr (df\<lparr>columns := c\<rparr>)))"

text \<open>
  Lines 75 to 85, one pass of the loop body: the call of \<open>yf.download\<close> (the next call
  after those of \<open>calls\<close>) and the handling of its columns.
\<close>

definition download :: "config \<Rightarrow> provider \<Rightarrow> string list \<Rightarrow> string \<Rightarrow> exn + frame" where
  "download cfg yf calls symbol =
     (case yf (length calls) symbol (start_date cfg) (tomorrow cfg) of
        Inl e \<Rightarrow> Inl e
      | Inr df \<Rightarrow> handle_multiindex df)"

text \<open>
  Lines 74 to 88, the loop \<open>for symbol in symbols\<close>: one download per entry of the list,
  in order; \<open>frames[symbol] = df\<close> keeps the position of a key already present. The
  first raise ends the loop.
\<close>

fun fetch_loop ::
  "config \<Rightarrow> provider \<Rightarrow> string list \<Rightarrow> panel \<Rightarrow> string list \<Rightarrow> (exn + panel) \<times> string list"
where
  "fetch_loop cfg yf [] frames calls = (Inr frames, calls)"
| "fetch_loop cfg yf (symbol # symbols) frames calls =
     (case download cfg yf calls symbol of
        Inl e \<Rightarrow> (Inl e, calls @ [symbol])
      | Inr df \<Rightarrow>
          fetch_loop cfg yf symbols (AList.update symbol df frames) (calls @ [symbol]))"

text \<open>Lines 71 to 106, the body of the \<open>try\<close> up to the assignment of the cache.\<close>

definition download_and_align ::
  "config \<Rightarrow> provider \<Rightarrow> string list \<Rightarrow> string list \<Rightarrow> (exn + panel) \<times> string list"
where
  "download_and_align cfg yf symbols calls =
     (case fetch_loop cfg yf symbols [] calls of
        (Inl e, calls') \<Rightarrow> (Inl e, calls')
      | (Inr frames, calls') \<Rightarrow> (align frames, calls'))"

text \<open>
  \<open>get_price_history\<close>: a cache that is not \<open>None\<close> is returned at once; otherwise the
  frames are downloaded and aligned, stored and returned. The handler logs and raises
  the exception again.
\<close>

definition get_price_history ::
  "config \<Rightarrow> provider \<Rightarrow> string list \<Rightarrow> service \<Rightarrow> (exn + panel) \<times> service"
where
  "get_price_history cfg yf symbols self =
     (case price_cache self of
        Some cached \<Rightarrow> (Inr cached, self)
      | None \<Rightarrow>
          (case download_and_align cfg yf symbols (download_log self) of
             (Inl e, calls') \<Rightarrow> (Inl e, self\<lparr>download_log := calls'\<rparr>)
           | (Inr frames, calls') \<Rightarrow>
               (Inr frames, self\<lparr>price_cache := Some frames, download_log := calls'\<rparr>)))"

definition clear_cache :: "service \<Rightarrow> service" where
  "clear_cache self = self\<lparr>price_cache := None\<rparr>"

subsection \<open>Loading the trades\<close>

text \<open>
  The text of the direction column is inspected character by character (\<open>strip\<close>), so
  it is modelled as Python has it: the list of the Unicode code points of the \<open>str\<close>.
\<close>

type_synonym codepoints = "nat list"

text \<open>
  Modelled from the spec: the class \<open>Trade\<close> of \<open>models/portfolio.py\<close> is not among the
  sources; it is taken as the plain record of the five fields the constructor call names.
\<close>

record trade =
  date :: timestamp
  ticker :: string
  price :: real
  quantity :: real
  direction :: codepoints

text \<open>
  A row of the spreadsheet as \<open>pd.read_excel\<close> returns it. \<open>Date\<close> is \<open>None\<close> when
  \<open>pd.to_datetime\<close> cannot parse the cell, \<open>Price\<close> and \<open>Quantity\<close> are \<open>None\<close> when
  \<open>float()\<close> cannot coerce the cell, \<open>Direction\<close> is the text \<open>str()\<close> gives for the cell.
\<close>

record sheet_row =
  Date :: "timestamp option"
  Ticker :: string
  Price :: "real option"
  Quantity :: "real option"
  Direction :: codepoints

text \<open>
  \<open>str.strip()\<close> removes the leading and trailing whitespace; \<open>is_space\<close> holds of the
  code points Python counts as whitespace: U+0009 to U+000D, U+001C to U+0020, U+0085,
  U+00A0, U+1680, U+2000 to U+200A, U+2028, U+2029, U+202F, U+205F and U+3000.
\<close>

definition is_space :: "nat \<Rightarrow> bool" where
  "is_space c \<longleftrightarrow>
     (0x09 \<le> c \<and> c \<le> 0x0D) \<or> (0x1C \<le> c \<and> c \<le> 0x20) \<or> c = 0x85 \<or> c = 0xA0 \<or>
     c = 0x1680 \<or> (0x2000 \<le> c \<and> c \<le> 0x200A) \<or> c = 0x2028 \<or> c = 0x2029 \<or>
     c = 0x202F \<or> c = 0x205F \<or> c = 0x3000"

definition strip :: "codepoints \<Rightarrow> codepoints" where
  "strip s = rev (dropWhile is_space (rev (dropWhile is_space s)))"

text \<open>The loop \<open>for _, row in df.iterrows()\<close>; a failed \<open>float()\<close> raises.\<close>

fun rows_loop :: "(timestamp \<times> sheet_row) list \<Rightarrow> trade list \<Rightarrow> exn + trade list" where
  "rows_loop [] trades = Inr trades"
| "rows_loop ((d, row) # rest) trades =
     (case Price row of
        None \<Rightarrow> Inl ValueError
      | Some p \<Rightarrow>
          (case Quantity row of
             None \<Rightarrow> Inl ValueError
           | Some q \<Rightarrow>
               rows_loop rest
                 (trades @ [\<lparr>date = d, ticker = Ticker row, price = p, quantity = q,
                              direction = strip (Direction row)\<rparr>])))"

text \<open>
  \<open>load_trades\<close>, given what \<open>pd.read_excel\<close> did (raised, or returned the rows): both
  handlers log and raise again.
\<close>

definition load_trades :: "exn + sheet_row list \<Rightarrow> exn + trade list" where
  "load_trades read_excel =
     (case read_excel of
        Inl e \<Rightarrow> Inl e
      | Inr df \<Rightarrow>
          (case those (map Date df) of
             None \<Rightarrow> Inl ValueError
           | Some dates \<Rightarrow> rows_loop (zip dates df) []))"

subsection \<open>Validation\<close>

text \<open>Lines 128 to 134: the first tracked symbol that is absent or empty gives \<open>False\<close>.\<close>

fun check_symbols :: "string list \<Rightarrow> panel \<Rightarrow> bool" where
  "check_symbols [] price_data = True"
| "check_symbols (symbol # symbols) price_data =
     (case map_of price_data symbol of
        None \<Rightarrow> False
      | Some df \<Rightarrow> if empty_df df then False else check_symbols symbols price_data)"

text \<open>Lines 118 to 134, the body of the \<open>try\<close>.\<close>

definition validate_body ::
  "config \<Rightarrow> exn + sheet_row list \<Rightarrow> provider \<Rightarrow> service \<Rightarrow> (exn + bool) \<times> service"
where
  "validate_body cfg read_excel yf self =
     (case load_trades read_excel of
        Inl e \<Rightarrow> (Inl e, self)
      | Inr trades \<Rightarrow>
          if trades = [] then (Inr False, self)
          else
            (case get_price_history cfg yf (tracked_symbols cfg) self of
               (Inl e, self') \<Rightarrow> (Inl e, self')
             | (Inr price_data, self') \<Rightarrow>
                 (Inr (check_symbols (tracked_symbols cfg) price_data), self')))"

text \<open>\<open>validate_data_integrity\<close>: the handler turns every exception into \<open>False\<close>.\<close>

definition validate_data_integrity ::
  "config \<Rightarrow> exn + sheet_row list \<Rightarrow> provider \<Rightarrow> service \<Rightarrow> (exn + bool) \<times> service"
where
  "validate_data_integrity cfg read_excel yf self =
     (case validate_body cfg read_excel yf self of
        (Inl e, self') \<Rightarrow> (Inr False, self')
      | (Inr ok, self') \<Rightarrow> (Inr ok, self'))"

section \<open>Concrete inputs\<close>

text \<open>
  Symbol A trades on days 1 to 5, symbol B on days 3 and 5 only; symbol E has a table
  with a column and no rows.
\<close>

definition frame_A :: frame where
  "frame_A = \<lparr>columns = Index [''Close''], index = [1, 2, 3, 4, 5],
              data = [[Some 10, Some 11, Some 12, Some 13, Some 14]]\<rparr>"

definition frame_B :: frame where
  "frame_B = \<lparr>columns = Index [''Close''], index = [3, 5],
              data = [[Some 20, Some 22]]\<rparr>"

definition frame_E :: frame where
  "frame_E = \<lparr>columns = Index [''Close''], index = [], data = [[]]\<rparr>"

definition frames_AB :: panel where
  "frames_AB = [(''A'', frame_A), (''B'', frame_B)]"

definition aligned_A :: frame where
  "aligned_A = \<lparr>columns = Index [''Close''], index = [1, 2, 3, 4, 5],
                data = [[Some 10, Some 11, Some 12, Some 13, Some 14]]\<rparr>"

definition aligned_B :: frame where
  "aligned_B = \<lparr>columns = Index [''Close''], index = [1, 2, 3, 4, 5],
                data = [[None, None, Some 20, Some 20, Some 22]]\<rparr>"

definition aligned_AB :: panel where
  "aligned_AB = [(''A'', aligned_A), (''B'', aligned_B)]"

definition cfg0 :: config where
  "cfg0 = \<lparr>start_date = 0, tomorrow = 6, tracked_symbols = [''A'', ''B'']\<rparr>"

definition yf_AB :: provider where
  "yf_AB n symbol start end =
     (if symbol = ''A'' then Inr frame_A
      else if symbol = ''B'' then Inr frame_B
      else if symbol = ''E'' then Inr frame_E
      else Inl (DownloadError symbol))"

definition fresh :: service where
  "fresh = \<lparr>price_cache = None, download_log = []\<rparr>"

definition warm :: service where
  "warm = \<lparr>price_cache = Some aligned_AB, download_log = [''A'', ''B'']\<rparr>"

text \<open>
  A provider that raises on every call, and a spreadsheet with one trade whose direction
  cell is the text \<open>Buy\<close> followed by a space.
\<close>

definition yf_down :: provider where
  "yf_down n symbol start end = Inl (DownloadError symbol)"

definition sheet1 :: "exn + sheet_row list" where
  "sheet1 = Inr [\<lparr>Date = Some 1, Ticker = ''A'', Price = Some 10, Quantity = Some 2,
                  Direction = [0x42, 0x75, 0x79, 0x20]\<rparr>]"

text \<open>A configuration that tracks A and E, and the state after a call with no symbols.\<close>

definition cfg_AE :: config where
  "cfg_AE = \<lparr>start_date = 0, tomorrow = 6, tracked_symbols = [''A'', ''E'']\<rparr>"

definition aligned_E :: frame where
  "aligned_E = \<lparr>columns = Index [''Close''], index = [1, 2, 3, 4, 5],
                data = [[None, None, None, None, None]]\<rparr>"

definition stale :: service where
  "stale = \<lparr>price_cache = Some [], download_log = []\<rparr>"

text \<open>A table with a repeated date, and a provider that returns it for every symbol.\<close>

definition frame_dup :: frame where
  "frame_dup = \<lparr>columns = Index [''Close''], index = [1, 1],
                data = [[Some 10, Some 11]]\<rparr>"

definition yf_dup :: provider where
  "yf_dup n symbol start end = Inr frame_dup"

text \<open>
  A table as the provider returns it for one ticker, with two-level column labels
  (field, ticker) and two fields, and a provider that returns it.
\<close>

definition frame_ohlc :: frame where
  "frame_ohlc = \<lparr>columns = MultiIndex 2 [[''Close'', ''A''], [''Open'', ''A'']],
                 index = [1, 2], data = [[Some 10, Some 11], [Some 9, Some 10]]\<rparr>"

definition yf_ohlc :: provider where
  "yf_ohlc n symbol start end = Inr frame_ohlc"

text \<open>A table whose column labels have three levels (field, ticker, currency).\<close>

definition frame_lv3 :: frame where
  "frame_lv3 = \<lparr>columns = MultiIndex 3 [[''Close'', ''A'', ''USD''], [''Open'', ''A'', ''USD'']],
                index = [1], data = [[Some 10], [Some 9]]\<rparr>"

definition yf_lv3 :: provider where
  "yf_lv3 n symbol start end = Inr frame_lv3"

definition aligned_ohlc :: frame where
  "aligned_ohlc = \<lparr>columns = Index [''Close'', ''Open''], index = [1, 2],
                   data = [[Some 10, Some 11], [Some 9, Some 10]]\<rparr>"

section \<open>Properties of the alignment\<close>

lemma all_dates_fold:
  "fold (\<lambda>df acc. acc \<union> set (index df)) fs A = A \<union> (\<Union>f\<in>set fs. set (index f))"
  by (induction fs arbitrary: A) auto

lemma all_dates_eq: "all_dates frames = (\<Union>f\<in>snd ` set frames. set (index f))"
  by (simp add: all_dates_def all_dates_fold)

lemma finite_all_dates: "finite (all_dates frames)"
  by (simp add: all_dates_eq)

lemma complete_dates_props:
  "sorted (complete_dates frames)"
  "distinct (complete_dates frames)"
  "set (complete_dates frames) = all_dates frames"
  by (simp_all add: complete_dates_def finite_all_dates)

lemma reindex_all_entry:
  "reindex_all cal frames = Inr aligned \<Longrightarrow> (s, g) \<in> set aligned \<Longrightarrow>
     \<exists>df r. (s, df) \<in> set frames \<and> reindex df cal = Inr r \<and> g = ffill r"
proof (induction frames arbitrary: aligned)
  case Nil
  then show ?case by simp
next
  case (Cons p frames)
  obtain t f where p: "p = (t, f)" by (cases p)
  from Cons.prems(1) p obtain r rest' where
    r: "reindex f cal = Inr r" and rest: "reindex_all cal frames = Inr rest'"
    and al: "aligned = (t, ffill r) # rest'"
    by (auto split: sum.splits)
  show ?case
  proof (cases "(s, g) = (t, ffill r)")
    case True
    with r p show ?thesis by auto
  next
    case False
    with Cons.prems(2) al have "(s, g) \<in> set rest'" by auto
    from Cons.IH [OF rest this] show ?thesis by auto
  qed
qed

lemma reindex_all_keys:
  "reindex_all cal frames = Inr aligned \<Longrightarrow> map fst aligned = map fst frames"
proof (induction frames arbitrary: aligned)
  case Nil
  then show ?case by simp
next
  case (Cons p frames)
  obtain t f where p: "p = (t, f)" by (cases p)
  from Cons.prems p obtain r rest' where
    rest: "reindex_all cal frames = Inr rest'" and al: "aligned = (t, ffill r) # rest'"
    by (auto split: sum.splits)
  from Cons.IH [OF rest] al p show ?case by simp
qed

lemma reindex_index: "reindex df cal = Inr r \<Longrightarrow> index (ffill r) = cal"
  by (auto simp: reindex_def ffill_def split: if_splits)

lemma complete_dates_code:
  "complete_dates frames = sort (remdups (concat (map (\<lambda>p. index (snd p)) frames)))"
proof -
  have eq: "all_dates frames = set (concat (map (\<lambda>p. index (snd p)) frames))"
    by (auto simp: all_dates_eq)
  show ?thesis
    unfolding complete_dates_def eq by (rule sorted_list_of_set_sort_remdups)
qed

lemma align_AB: "align frames_AB = Inr aligned_AB"
  by (simp add: align_def complete_dates_code frames_AB_def frame_A_def frame_B_def
      aligned_AB_def aligned_A_def aligned_B_def reindex_def ffill_def)

text \<open>
  C1: whenever the alignment returns a panel, the panel has the symbols of the input in
  the same order, and the date index of every one of its series is sorted, free of
  duplicates, and holds exactly the union of the dates of all input series; so all
  output series share one index.
\<close>

theorem align_calendar_is_union:
  assumes "align frames = Inr aligned"
  shows "map fst aligned = map fst frames \<and>
         (\<forall>(s, g) \<in> set aligned.
            sorted (index g) \<and> distinct (index g) \<and>
            set (index g) = (\<Union>f\<in>snd ` set frames. set (index f)) \<and>
            (\<forall>(t, h) \<in> set aligned. index h = index g))"
proof (cases "frames = []")
  case True
  with assms show ?thesis by (simp add: align_def)
next
  case False
  with assms have ra: "reindex_all (complete_dates frames) frames = Inr aligned"
    by (simp add: align_def)
  have idx: "index g = complete_dates frames" if "(s, g) \<in> set aligned" for s g
    using reindex_all_entry [OF ra that] reindex_index by blast
  have "map fst aligned = map fst frames"
    by (rule reindex_all_keys [OF ra])
  moreover have "\<forall>(s, g) \<in> set aligned.
            sorted (index g) \<and> distinct (index g) \<and>
            set (index g) = (\<Union>f\<in>snd ` set frames. set (index f)) \<and>
            (\<forall>(t, h) \<in> set aligned. index h = index g)"
    using idx complete_dates_props [of frames] all_dates_eq [of frames] by auto
  ultimately show ?thesis by simp
qed

theorem align_calendar_is_union_witness:
  "align frames_AB = Inr aligned_AB \<and>
   map fst aligned_AB = [''A'', ''B''] \<and>
   sorted (index aligned_B) \<and> distinct (index aligned_B) \<and>
   set (index aligned_B) = {1, 2, 3, 4, 5} \<and>
   index aligned_A = index aligned_B"
proof -
  have h: "align frames_AB = Inr aligned_AB" by (rule align_AB)
  have u: "(\<Union>f\<in>snd ` set frames_AB. set (index f)) = {1, 2, 3, 4, 5}"
    by (auto simp: frames_AB_def frame_A_def frame_B_def)
  have k: "map fst frames_AB = [''A'', ''B'']" by (simp add: frames_AB_def)
  have m: "(''B'', aligned_B) \<in> set aligned_AB" "(''A'', aligned_A) \<in> set aligned_AB"
    by (simp_all add: aligned_AB_def)
  show ?thesis
    using align_calendar_is_union [OF h] h m unfolding u k by blast
qed

subsection \<open>Forward fill\<close>

lemma ffill_col_length: "length (ffill_col l cs) = length cs"
  by (induction cs arbitrary: l) (auto split: option.splits)

lemma ffill_col_nth_unseen:
  "i < length cs \<Longrightarrow> (\<forall>m\<le>i. cs ! m = None) \<Longrightarrow> ffill_col l cs ! i = l"
proof (induction cs arbitrary: i)
  case Nil
  then show ?case by simp
next
  case (Cons c cs)
  from Cons.prems(2) have c: "c = None" by (metis le0 nth_Cons_0)
  show ?case
  proof (cases i)
    case 0
    with c show ?thesis by simp
  next
    case (Suc i')
    have "\<forall>m\<le>i'. cs ! m = None"
    proof (intro allI impI)
      fix m assume "m \<le> i'"
      then have "Suc m \<le> i" using Suc by simp
      with Cons.prems(2) have "(c # cs) ! Suc m = None" by blast
      then show "cs ! m = None" by simp
    qed
    with Cons.IH [of i'] Cons.prems(1) Suc c show ?thesis by simp
  qed
qed

lemma ffill_col_nth_seen:
  "k \<le> i \<Longrightarrow> i < length cs \<Longrightarrow> cs ! k = Some v \<Longrightarrow>
   (\<forall>m. k < m \<and> m \<le> i \<longrightarrow> cs ! m = None) \<Longrightarrow> ffill_col l cs ! i = Some v"
proof (induction cs arbitrary: l k i)
  case Nil
  then show ?case by simp
next
  case (Cons c cs)
  show ?case
  proof (cases k)
    case 0
    with Cons.prems(3) have c: "c = Some v" by simp
    show ?thesis
    proof (cases i)
      case 0
      with c show ?thesis by simp
    next
      case (Suc i')
      have "\<forall>m\<le>i'. cs ! m = None"
      proof (intro allI impI)
        fix m assume "m \<le> i'"
        then have "k < Suc m \<and> Suc m \<le> i" using Suc \<open>k = 0\<close> by simp
        with Cons.prems(4) have "(c # cs) ! Suc m = None" by blast
        then show "cs ! m = None" by simp
      qed
      with ffill_col_nth_unseen [of i' cs "Some v"] Cons.prems(2) Suc c
      show ?thesis by simp
    qed
  next
    case (Suc k')
    with Cons.prems(1) obtain i' where i: "i = Suc i'" and ki: "k' \<le> i'"
      by (cases i) auto
    have a: "cs ! k' = Some v" using Cons.prems(3) Suc by simp
    have b: "\<forall>m. k' < m \<and> m \<le> i' \<longrightarrow> cs ! m = None"
    proof (intro allI impI)
      fix m assume "k' < m \<and> m \<le> i'"
      then have "k < Suc m \<and> Suc m \<le> i" using Suc i by simp
      with Cons.prems(4) have "(c # cs) ! Suc m = None" by blast
      then show "cs ! m = None" by simp
    qed
    have len: "i' < length cs" using Cons.prems(2) i by simp
    from Cons.IH [OF ki len a b] i show ?thesis
      by (cases c) simp_all
  qed
qed

lemma value_at_absent: "d \<notin> set (index df) \<Longrightarrow> value_at df d j = None"
proof -
  assume "d \<notin> set (index df)"
  then have "map_of (zip (index df) (data df ! j)) d = None"
    by (auto simp: map_of_eq_None_iff dest: set_zip_leftD)
  then show ?thesis by (simp add: value_at_def)
qed

lemma value_at_aligned:
  assumes r: "reindex df cal = Inr r" and dc: "distinct cal" and i: "i < length cal"
  shows "value_at (ffill r) (cal ! i) j =
           ffill_col None (map (\<lambda>d. value_at df d j) cal) ! i"
proof (cases "j < length (data df)")
  case True
  from r have idx: "index (ffill r) = cal"
    and dat: "data (ffill r) ! j = ffill_col None (map (\<lambda>d. value_at df d j) cal)"
    and len: "length (data (ffill r)) = length (data df)"
    using True by (auto simp: reindex_def ffill_def value_at_def split: if_splits)
  have "map_of (zip cal (ffill_col None (map (\<lambda>d. value_at df d j) cal))) (cal ! i)
          = Some (ffill_col None (map (\<lambda>d. value_at df d j) cal) ! i)"
    by (rule map_of_zip_nth) (simp_all add: ffill_col_length dc i)
  with True idx dat len show ?thesis by (simp add: value_at_def)
next
  case False
  from r have len: "length (data (ffill r)) = length (data df)"
    by (auto simp: reindex_def ffill_def split: if_splits)
  have "ffill_col None (map (\<lambda>d. value_at df d j) cal) ! i = None"
    by (rule ffill_col_nth_unseen) (use False i in \<open>simp_all add: value_at_def\<close>)
  with False len show ?thesis by (simp add: value_at_def)
qed

lemma reindex_all_lookup:
  "reindex_all cal frames = Inr aligned \<Longrightarrow> map_of aligned s = Some g \<Longrightarrow>
     \<exists>df r. map_of frames s = Some df \<and> reindex df cal = Inr r \<and> g = ffill r"
proof (induction frames arbitrary: aligned)
  case Nil
  then show ?case by simp
next
  case (Cons p frames)
  obtain t f where p: "p = (t, f)" by (cases p)
  from Cons.prems(1) p obtain r rest' where
    r: "reindex f cal = Inr r" and rest: "reindex_all cal frames = Inr rest'"
    and al: "aligned = (t, ffill r) # rest'"
    by (auto split: sum.splits)
  show ?case
  proof (cases "s = t")
    case True
    with Cons.prems(2) al r p show ?thesis by auto
  next
    case False
    with Cons.prems(2) al have "map_of rest' s = Some g" by simp
    from Cons.IH [OF rest this] False p show ?thesis by auto
  qed
qed

lemma sorted_distinct_pos_le:
  assumes "sorted cal" "distinct cal" "k < length cal" "i < length cal" "cal ! k \<le> cal ! i"
  shows "k \<le> i"
proof (rule ccontr)
  assume "\<not> k \<le> i"
  then have ik: "i < k" by simp
  with assms(1,3) have "cal ! i \<le> cal ! k" by (simp add: sorted_nth_mono)
  with assms(5) have "cal ! i = cal ! k" by simp
  with assms(2,3,4) have "i = k" by (simp add: nth_eq_iff_index_eq)
  with ik show False by simp
qed

lemma aligned_value_seen:
  assumes r: "reindex df cal = Inr r" and sc: "sorted cal" and dc: "distinct cal"
    and sub: "set (index df) \<subseteq> set cal" and D: "D \<in> set cal"
    and d0: "d0 \<in> set (index df)" "d0 \<le> D" "value_at df d0 j = Some v"
    and gap: "\<forall>d\<in>set (index df). d0 < d \<and> d \<le> D \<longrightarrow> value_at df d j = None"
  shows "value_at (ffill r) D j = Some v"
proof -
  from D obtain i where i: "i < length cal" "cal ! i = D" by (auto simp: in_set_conv_nth)
  from d0(1) sub have "d0 \<in> set cal" by blast
  then obtain k where k: "k < length cal" "cal ! k = d0"
    by (auto simp: in_set_conv_nth)
  have ki: "k \<le> i"
    by (rule sorted_distinct_pos_le [OF sc dc k(1) i(1)]) (simp add: i k d0)
  let ?col = "map (\<lambda>d. value_at df d j) cal"
  have ck: "?col ! k = Some v" using k d0 by simp
  have between: "\<forall>m. k < m \<and> m \<le> i \<longrightarrow> ?col ! m = None"
  proof (intro allI impI)
    fix m assume m: "k < m \<and> m \<le> i"
    then have ml: "m < length cal" using i by simp
    have "cal ! k \<le> cal ! m" using sc m ml by (simp add: sorted_nth_mono)
    moreover have "cal ! k \<noteq> cal ! m" using dc k(1) ml m by (simp add: nth_eq_iff_index_eq)
    ultimately have lo: "d0 < cal ! m" using k by simp
    have hi: "cal ! m \<le> D" using sc m i by (metis sorted_nth_mono)
    have "value_at df (cal ! m) j = None"
    proof (cases "cal ! m \<in> set (index df)")
      case True
      with gap lo hi show ?thesis by blast
    next
      case False
      then show ?thesis by (rule value_at_absent)
    qed
    then show "?col ! m = None" using ml by simp
  qed
  have "ffill_col None ?col ! i = Some v"
    by (rule ffill_col_nth_seen [OF ki _ ck between]) (simp add: i)
  with value_at_aligned [OF r dc i(1), of j] i show ?thesis by simp
qed

lemma aligned_value_unseen:
  assumes r: "reindex df cal = Inr r" and sc: "sorted cal" and dc: "distinct cal"
    and D: "D \<in> set cal"
    and gap: "\<forall>d\<in>set (index df). d \<le> D \<longrightarrow> value_at df d j = None"
  shows "value_at (ffill r) D j = None"
proof -
  from D obtain i where i: "i < length cal" "cal ! i = D" by (auto simp: in_set_conv_nth)
  let ?col = "map (\<lambda>d. value_at df d j) cal"
  have before: "\<forall>m\<le>i. ?col ! m = None"
  proof (intro allI impI)
    fix m assume m: "m \<le> i"
    then have ml: "m < length cal" using i by simp
    have hi: "cal ! m \<le> D" using sc m i by (metis sorted_nth_mono)
    have "value_at df (cal ! m) j = None"
    proof (cases "cal ! m \<in> set (index df)")
      case True
      with gap hi show ?thesis by blast
    next
      case False
      then show ?thesis by (rule value_at_absent)
    qed
    then show "?col ! m = None" using ml by simp
  qed
  have "ffill_col None ?col ! i = None"
    by (rule ffill_col_nth_unseen) (use i before in simp_all)
  with value_at_aligned [OF r dc i(1), of j] i show ?thesis by simp
qed

lemma align_lookup:
  assumes "align frames = Inr aligned" and "map_of aligned s = Some g"
  shows "\<exists>df r. map_of frames s = Some df \<and> reindex df (complete_dates frames) = Inr r \<and>
                g = ffill r"
proof (cases "frames = []")
  case True
  with assms show ?thesis by (simp add: align_def)
next
  case False
  with assms(1) have "reindex_all (complete_dates frames) frames = Inr aligned"
    by (simp add: align_def)
  from reindex_all_lookup [OF this assms(2)] show ?thesis .
qed

lemma index_in_all_dates: "map_of frames s = Some df \<Longrightarrow> set (index df) \<subseteq> all_dates frames"
  by (auto simp: all_dates_eq dest!: map_of_SomeD intro!: bexI [of _ "(s, df)"])

text \<open>
  C2: an observation of symbol \<open>s\<close> in column \<open>j\<close> is a native date of \<open>s\<close> whose cell
  in that column is not NaN. For every symbol of the aligned panel, every date \<open>D\<close> of its
  index and every column, the panel value at \<open>D\<close> is the native value at the latest
  observation that is at or before \<open>D\<close>, copied as it is; when no observation is at or
  before \<open>D\<close> (\<open>D\<close> lies before the first observation) the panel value is missing.
\<close>

theorem forward_fill_law:
  assumes "align frames = Inr aligned"
    and "map_of frames s = Some df"
    and "map_of aligned s = Some g"
    and "D \<in> set (index g)"
  shows "value_at g D j =
           (if {d \<in> set (index df). d \<le> D \<and> value_at df d j \<noteq> None} = {} then None
            else value_at df (Max {d \<in> set (index df). d \<le> D \<and> value_at df d j \<noteq> None}) j)"
proof -
  let ?cal = "complete_dates frames"
  let ?obs = "{d \<in> set (index df). d \<le> D \<and> value_at df d j \<noteq> None}"
  from align_lookup [OF assms(1,3)] assms(2) obtain r where
    r: "reindex df ?cal = Inr r" and g: "g = ffill r" by auto
  have idx: "index g = ?cal" using r g by (simp add: reindex_index)
  have sc: "sorted ?cal" and dc: "distinct ?cal" and setc: "set ?cal = all_dates frames"
    by (rule complete_dates_props)+
  have sub: "set (index df) \<subseteq> set ?cal"
    using index_in_all_dates [OF assms(2)] setc by simp
  have D: "D \<in> set ?cal" using assms(4) idx by simp
  show ?thesis
  proof (cases "?obs = {}")
    case True
    then have "\<forall>d\<in>set (index df). d \<le> D \<longrightarrow> value_at df d j = None" by blast
    from aligned_value_unseen [OF r sc dc D this] True g show ?thesis by simp
  next
    case False
    have fin: "finite ?obs" by simp
    define d0 where "d0 = Max ?obs"
    have "d0 \<in> ?obs" unfolding d0_def using fin False by (rule Max_in)
    then have a: "d0 \<in> set (index df)" "d0 \<le> D" and "value_at df d0 j \<noteq> None" by auto
    then obtain v where v: "value_at df d0 j = Some v" by auto
    have gap: "\<forall>d\<in>set (index df). d0 < d \<and> d \<le> D \<longrightarrow> value_at df d j = None"
    proof (intro ballI impI, rule ccontr)
      fix d assume d: "d \<in> set (index df)" "d0 < d \<and> d \<le> D" "value_at df d j \<noteq> None"
      then have "d \<in> ?obs" by simp
      then have "d \<le> d0" unfolding d0_def using fin by (simp add: Max_ge)
      with d(2) show False by simp
    qed
    from aligned_value_seen [OF r sc dc sub D a v gap] False g v show ?thesis
      by (simp add: d0_def)
  qed
qed

theorem forward_fill_law_witness:
  "value_at aligned_B 4 0 = value_at frame_B 3 0 \<and> value_at frame_B 3 0 = Some 20 \<and>
   value_at aligned_B 2 0 = None \<and> value_at aligned_A 2 0 = Some 11"
proof -
  have h: "align frames_AB = Inr aligned_AB" by (rule align_AB)
  have fB: "map_of frames_AB ''B'' = Some frame_B" and fA: "map_of frames_AB ''A'' = Some frame_A"
    by (simp_all add: frames_AB_def)
  have gB: "map_of aligned_AB ''B'' = Some aligned_B" and gA: "map_of aligned_AB ''A'' = Some aligned_A"
    by (simp_all add: aligned_AB_def)
  have o4: "{d \<in> set (index frame_B). d \<le> 4 \<and> value_at frame_B d 0 \<noteq> None} = {3}"
    by (auto simp: frame_B_def value_at_def)
  have o2: "{d \<in> set (index frame_B). d \<le> 2 \<and> value_at frame_B d 0 \<noteq> None} = {}"
    by (auto simp: frame_B_def value_at_def)
  have oA: "{d \<in> set (index frame_A). d \<le> 2 \<and> value_at frame_A d 0 \<noteq> None} = {1, 2}"
    by (auto simp: frame_A_def value_at_def)
  have "value_at aligned_B 4 0 = value_at frame_B 3 0"
    using forward_fill_law [OF h fB gB, of 4 0] unfolding o4 by (simp add: aligned_B_def)
  moreover have "value_at aligned_B 2 0 = None"
    using forward_fill_law [OF h fB gB, of 2 0] unfolding o2 by (simp add: aligned_B_def)
  moreover have "value_at aligned_A 2 0 = Some 11"
    using forward_fill_law [OF h fA gA, of 2 0] unfolding oA
    by (simp add: aligned_A_def frame_A_def value_at_def)
  moreover have "value_at frame_B 3 0 = Some 20" by (simp add: frame_B_def value_at_def)
  ultimately show ?thesis by simp
qed

section \<open>Properties of the cache\<close>

lemma gph_AB: "get_price_history cfg0 yf_AB [''A'', ''B''] fresh = (Inr aligned_AB, warm)"
  by (simp add: get_price_history_def download_and_align_def download_def fresh_def warm_def
      yf_AB_def handle_multiindex_def frame_A_def frame_B_def cfg0_def
      align_def complete_dates_code aligned_AB_def aligned_A_def aligned_B_def reindex_def
      ffill_def)

lemma get_price_history_cached:
  "price_cache self = Some cached \<Longrightarrow> get_price_history cfg yf symbols self = (Inr cached, self)"
  by (simp add: get_price_history_def)

lemma get_price_history_success:
  "get_price_history cfg yf symbols self = (Inr aligned, self') \<Longrightarrow>
     price_cache self' = Some aligned"
  by (auto simp: get_price_history_def split: option.splits sum.splits prod.splits)

lemma validate_cached_state:
  "price_cache self = Some cached \<Longrightarrow>
     snd (validate_data_integrity cfg read_excel yf self) = self"
  by (simp add: validate_data_integrity_def validate_body_def get_price_history_cached
      split: sum.splits)

text \<open>
  C3: after a call of \<open>get_price_history\<close> that returned a panel, that panel is the cache,
  and any further call, whatever its symbol list, configuration and provider, returns the
  same panel and leaves the service as it is: the download log does not grow, so the
  provider is not called. A validation run leaves that state unchanged as well, so this
  holds for every later call until \<open>clear_cache\<close>.
\<close>

theorem cache_hit_returns_stored_panel:
  assumes "get_price_history cfg yf symbols self = (Inr aligned, self')"
  shows "price_cache self' = Some aligned \<and>
         get_price_history cfg' yf' symbols' self' = (Inr aligned, self') \<and>
         snd (validate_data_integrity cfg' read_excel yf' self') = self'"
proof -
  have c: "price_cache self' = Some aligned"
    by (rule get_price_history_success [OF assms])
  show ?thesis
    using c get_price_history_cached [OF c] validate_cached_state [OF c] by simp
qed

theorem cache_hit_returns_stored_panel_witness:
  "get_price_history cfg0 yf_AB [''A'', ''B''] fresh = (Inr aligned_AB, warm) \<and>
   get_price_history cfg0 yf_down [''Z''] warm = (Inr aligned_AB, warm) \<and>
   download_log warm = [''A'', ''B'']"
proof -
  have h: "get_price_history cfg0 yf_AB [''A'', ''B''] fresh = (Inr aligned_AB, warm)"
    by (rule gph_AB)
  show ?thesis
    using cache_hit_returns_stored_panel [OF h, of cfg0 yf_down "[''Z'']"] h
    by (simp add: warm_def)
qed

subsection \<open>The download loop, entry by entry\<close>

text \<open>
  The download of entry number \<open>m\<close> of the list is the call made after the calls for the
  \<open>m\<close> entries before it. When every entry downloads, the loop returns the dictionary
  obtained by assigning the frames in list order and has called the provider once per
  entry.
\<close>

lemma fetch_loop_all_return:
  "length dfs = length symbols \<Longrightarrow>
   \<forall>m<length symbols. download cfg yf (calls @ take m symbols) (symbols ! m) = Inr (dfs ! m) \<Longrightarrow>
   fetch_loop cfg yf symbols frames calls
     = (Inr (fold (\<lambda>(s, df). AList.update s df) (zip symbols dfs) frames), calls @ symbols)"
proof (induction symbols arbitrary: dfs frames calls)
  case Nil
  then show ?case by simp
next
  case (Cons s symbols)
  from Cons.prems(1) obtain d ds where dfs: "dfs = d # ds" and len: "length ds = length symbols"
    by (cases dfs) auto
  from Cons.prems(2) have "download cfg yf (calls @ take 0 (s # symbols)) ((s # symbols) ! 0)
      = Inr (dfs ! 0)"
    by blast
  then have d0: "download cfg yf calls s = Inr d" using dfs by simp
  have rest: "\<forall>m<length symbols.
      download cfg yf ((calls @ [s]) @ take m symbols) (symbols ! m) = Inr (ds ! m)"
  proof (intro allI impI)
    fix m assume "m < length symbols"
    then have "Suc m < length (s # symbols)" by simp
    with Cons.prems(2) have
      "download cfg yf (calls @ take (Suc m) (s # symbols)) ((s # symbols) ! Suc m)
         = Inr (dfs ! Suc m)"
      by blast
    then show "download cfg yf ((calls @ [s]) @ take m symbols) (symbols ! m) = Inr (ds ! m)"
      using dfs by simp
  qed
  from Cons.IH [OF len rest, of "AList.update s d frames"] d0 dfs show ?case by simp
qed

text \<open>
  When entry number \<open>n\<close> is the first whose download raises, the loop raises that
  exception and has called the provider for the entries up to and including it.
\<close>

lemma fetch_loop_first_raise:
  "n < length symbols \<Longrightarrow>
   \<forall>m<n. \<exists>df. download cfg yf (calls @ take m symbols) (symbols ! m) = Inr df \<Longrightarrow>
   download cfg yf (calls @ take n symbols) (symbols ! n) = Inl e \<Longrightarrow>
   fetch_loop cfg yf symbols frames calls = (Inl e, calls @ take (Suc n) symbols)"
proof (induction symbols arbitrary: n frames calls)
  case Nil
  then show ?case by simp
next
  case (Cons s symbols)
  show ?case
  proof (cases n)
    case 0
    with Cons.prems(3) show ?thesis by simp
  next
    case (Suc n')
    from Cons.prems(2) Suc have
      "\<exists>df. download cfg yf (calls @ take 0 (s # symbols)) ((s # symbols) ! 0) = Inr df"
      by blast
    then obtain d where d0: "download cfg yf calls s = Inr d" by auto
    have n': "n' < length symbols" using Cons.prems(1) Suc by simp
    have before: "\<forall>m<n'. \<exists>df.
        download cfg yf ((calls @ [s]) @ take m symbols) (symbols ! m) = Inr df"
    proof (intro allI impI)
      fix m assume "m < n'"
      then have "Suc m < n" using Suc by simp
      with Cons.prems(2) have
        "\<exists>df. download cfg yf (calls @ take (Suc m) (s # symbols)) ((s # symbols) ! Suc m)
           = Inr df"
        by blast
      then show "\<exists>df. download cfg yf ((calls @ [s]) @ take m symbols) (symbols ! m) = Inr df"
        by simp
    qed
    have at: "download cfg yf ((calls @ [s]) @ take n' symbols) (symbols ! n') = Inl e"
      using Cons.prems(3) Suc by simp
    from Cons.IH [OF n' before at, of "AList.update s d frames"] d0 Suc show ?thesis by simp
  qed
qed

text \<open>Either every entry downloads, or some entry is the first whose download raises.\<close>

lemma downloads_return_or_first_raise:
  "(\<exists>dfs. length dfs = length symbols \<and>
      (\<forall>m<length symbols.
         download cfg yf (calls @ take m symbols) (symbols ! m) = Inr (dfs ! m))) \<or>
   (\<exists>e n. n < length symbols \<and>
      (\<forall>m<n. \<exists>df. download cfg yf (calls @ take m symbols) (symbols ! m) = Inr df) \<and>
      download cfg yf (calls @ take n symbols) (symbols ! n) = Inl e)"
proof (cases "\<forall>m<length symbols.
    \<exists>df. download cfg yf (calls @ take m symbols) (symbols ! m) = Inr df")
  case True
  then have "\<exists>dfs. length dfs = length symbols \<and>
      (\<forall>m<length symbols.
         download cfg yf (calls @ take m symbols) (symbols ! m) = Inr (dfs ! m))"
    by (simp add: Skolem_list_nth)
  then show ?thesis by blast
next
  case False
  define bad where "bad m \<longleftrightarrow> m < length symbols \<and>
    (\<forall>df. download cfg yf (calls @ take m symbols) (symbols ! m) \<noteq> Inr df)" for m
  from False have "\<exists>m. bad m" unfolding bad_def by blast
  then obtain n where n: "bad n" and least: "\<forall>m<n. \<not> bad m"
    using exists_least_iff [of bad] by blast
  from n obtain e where e: "download cfg yf (calls @ take n symbols) (symbols ! n) = Inl e"
    unfolding bad_def by (cases "download cfg yf (calls @ take n symbols) (symbols ! n)") auto
  have "\<forall>m<n. \<exists>df. download cfg yf (calls @ take m symbols) (symbols ! m) = Inr df"
  proof (intro allI impI)
    fix m assume m: "m < n"
    with least have "\<not> bad m" by blast
    moreover from m n have "m < length symbols" unfolding bad_def by simp
    ultimately show "\<exists>df. download cfg yf (calls @ take m symbols) (symbols ! m) = Inr df"
      unfolding bad_def by blast
  qed
  with n e show ?thesis unfolding bad_def by blast
qed

lemma get_price_history_all_return:
  assumes "price_cache st = None"
    and "length dfs = length symbols"
    and "\<forall>m<length symbols.
           download cfg yf (download_log st @ take m symbols) (symbols ! m) = Inr (dfs ! m)"
  shows "get_price_history cfg yf symbols st =
           (case align (fold (\<lambda>(s, df). AList.update s df) (zip symbols dfs) []) of
              Inl e \<Rightarrow> (Inl e, st\<lparr>download_log := download_log st @ symbols\<rparr>)
            | Inr aligned \<Rightarrow>
                (Inr aligned,
                 st\<lparr>price_cache := Some aligned,
                    download_log := download_log st @ symbols\<rparr>))"
  using assms(1) fetch_loop_all_return [OF assms(2,3), of "[]"]
  by (simp add: get_price_history_def download_and_align_def split: sum.splits)

lemma get_price_history_first_raise:
  assumes "price_cache st = None"
    and "n < length symbols"
    and "\<forall>m<n. \<exists>df. download cfg yf (download_log st @ take m symbols) (symbols ! m) = Inr df"
    and "download cfg yf (download_log st @ take n symbols) (symbols ! n) = Inl e"
  shows "get_price_history cfg yf symbols st
           = (Inl e, st\<lparr>download_log := download_log st @ take (Suc n) symbols\<rparr>)"
  using assms(1) fetch_loop_first_raise [OF assms(2,3,4), of "[]"]
  by (simp add: get_price_history_def download_and_align_def)

lemma download_A: "download cfg0 yf_AB calls ''A'' = Inr frame_A"
  by (simp add: download_def yf_AB_def handle_multiindex_def frame_A_def)

lemma download_B: "download cfg0 yf_AB calls ''B'' = Inr frame_B"
  by (simp add: download_def yf_AB_def handle_multiindex_def frame_B_def)

lemma download_Z: "download cfg0 yf_AB calls ''Z'' = Inl (DownloadError ''Z'')"
  by (simp add: download_def yf_AB_def)

lemma download_dup: "download cfg0 yf_dup calls symbol = Inr frame_dup"
  by (simp add: download_def yf_dup_def handle_multiindex_def frame_dup_def)

lemma align_dup: "align [(''A'', frame_dup)] = Inl ValueError"
  by (simp add: align_def complete_dates_code reindex_def frame_dup_def)

text \<open>
  C5: let the cache be empty, and let the call raise \<open>e\<close> in one of the two ways it can:
  some entry of the symbol list is the first whose download raises, and raises \<open>e\<close>; or
  every entry downloads and the alignment of the downloaded frames raises \<open>e\<close>. Then
  \<open>get_price_history\<close> raises \<open>e\<close>, and the service after the call is the service before
  it but for the trace of the calls made: the cache is what it was, no panel is stored.
  That trace has grown by the entries up to and including the one whose download raised,
  or by the whole list when the alignment raised.
  The next call starts from the first symbol again: if all its downloads return and
  their alignment returns a panel, it returns that panel and stores it, having called
  the provider once more for every entry.
\<close>

theorem failure_leaves_cache:
  assumes "price_cache self = None"
    and "(\<exists>n<length symbols.
            (\<forall>m<n. \<exists>df. download cfg yf (download_log self @ take m symbols) (symbols ! m)
                           = Inr df) \<and>
            download cfg yf (download_log self @ take n symbols) (symbols ! n) = Inl e) \<or>
         (\<exists>dfs. length dfs = length symbols \<and>
            (\<forall>m<length symbols.
               download cfg yf (download_log self @ take m symbols) (symbols ! m)
                 = Inr (dfs ! m)) \<and>
            align (fold (\<lambda>(s, df). AList.update s df) (zip symbols dfs) []) = Inl e)"
  shows "\<exists>calls'.
           get_price_history cfg yf symbols self = (Inl e, self\<lparr>download_log := calls'\<rparr>) \<and>
           price_cache (snd (get_price_history cfg yf symbols self)) = price_cache self \<and>
           (\<forall>n. n < length symbols \<and>
              (\<forall>m<n. \<exists>df. download cfg yf (download_log self @ take m symbols) (symbols ! m)
                             = Inr df) \<and>
              download cfg yf (download_log self @ take n symbols) (symbols ! n) = Inl e
              \<longrightarrow> calls' = download_log self @ take (Suc n) symbols) \<and>
           ((\<forall>m<length symbols.
               \<exists>df. download cfg yf (download_log self @ take m symbols) (symbols ! m) = Inr df)
              \<longrightarrow> calls' = download_log self @ symbols) \<and>
           (\<forall>dfs' aligned'.
              length dfs' = length symbols' \<and>
              (\<forall>m<length symbols'.
                 download cfg' yf' (calls' @ take m symbols') (symbols' ! m) = Inr (dfs' ! m)) \<and>
              align (fold (\<lambda>(s, df). AList.update s df) (zip symbols' dfs') []) = Inr aligned'
              \<longrightarrow>
              get_price_history cfg' yf' symbols' (snd (get_price_history cfg yf symbols self))
                = (Inr aligned',
                   self\<lparr>price_cache := Some aligned', download_log := calls' @ symbols'\<rparr>))"
proof -
  have "\<exists>calls'. get_price_history cfg yf symbols self
                    = (Inl e, self\<lparr>download_log := calls'\<rparr>)"
    using assms(2)
  proof
    assume "\<exists>n<length symbols.
            (\<forall>m<n. \<exists>df. download cfg yf (download_log self @ take m symbols) (symbols ! m)
                           = Inr df) \<and>
            download cfg yf (download_log self @ take n symbols) (symbols ! n) = Inl e"
    then obtain n where "n < length symbols"
      "\<forall>m<n. \<exists>df. download cfg yf (download_log self @ take m symbols) (symbols ! m) = Inr df"
      "download cfg yf (download_log self @ take n symbols) (symbols ! n) = Inl e"
      by blast
    from get_price_history_first_raise [OF assms(1) this] show ?thesis by blast
  next
    assume "\<exists>dfs. length dfs = length symbols \<and>
            (\<forall>m<length symbols.
               download cfg yf (download_log self @ take m symbols) (symbols ! m)
                 = Inr (dfs ! m)) \<and>
            align (fold (\<lambda>(s, df). AList.update s df) (zip symbols dfs) []) = Inl e"
    then obtain dfs where d: "length dfs = length symbols"
      "\<forall>m<length symbols.
         download cfg yf (download_log self @ take m symbols) (symbols ! m) = Inr (dfs ! m)"
      and a: "align (fold (\<lambda>(s, df). AList.update s df) (zip symbols dfs) []) = Inl e"
      by blast
    from get_price_history_all_return [OF assms(1) d] a show ?thesis by auto
  qed
  then obtain calls' where
    r: "get_price_history cfg yf symbols self = (Inl e, self\<lparr>download_log := calls'\<rparr>)"
    by blast
  let ?st = "self\<lparr>download_log := calls'\<rparr>"
  have c: "price_cache ?st = None" using assms(1) by simp
  have later: "\<forall>dfs' aligned'.
              length dfs' = length symbols' \<and>
              (\<forall>m<length symbols'.
                 download cfg' yf' (calls' @ take m symbols') (symbols' ! m) = Inr (dfs' ! m)) \<and>
              align (fold (\<lambda>(s, df). AList.update s df) (zip symbols' dfs') []) = Inr aligned'
              \<longrightarrow>
              get_price_history cfg' yf' symbols' ?st
                = (Inr aligned',
                   self\<lparr>price_cache := Some aligned', download_log := calls' @ symbols'\<rparr>)"
  proof (intro allI impI, elim conjE)
    fix dfs' aligned'
    assume l: "length dfs' = length symbols'"
      and d: "\<forall>m<length symbols'.
                 download cfg' yf' (calls' @ take m symbols') (symbols' ! m) = Inr (dfs' ! m)"
      and a: "align (fold (\<lambda>(s, df). AList.update s df) (zip symbols' dfs') []) = Inr aligned'"
    from d have d': "\<forall>m<length symbols'.
        download cfg' yf' (download_log ?st @ take m symbols') (symbols' ! m) = Inr (dfs' ! m)"
      by simp
    from get_price_history_all_return [OF c l d'] a
    show "get_price_history cfg' yf' symbols' ?st
            = (Inr aligned',
               self\<lparr>price_cache := Some aligned', download_log := calls' @ symbols'\<rparr>)"
      by simp
  qed
  have pc: "price_cache (snd (get_price_history cfg yf symbols self)) = price_cache self"
    using r by simp
  have stop: "\<forall>n. n < length symbols \<and>
              (\<forall>m<n. \<exists>df. download cfg yf (download_log self @ take m symbols) (symbols ! m)
                             = Inr df) \<and>
              download cfg yf (download_log self @ take n symbols) (symbols ! n) = Inl e
              \<longrightarrow> calls' = download_log self @ take (Suc n) symbols"
  proof (intro allI impI, elim conjE)
    fix n
    assume "n < length symbols"
      "\<forall>m<n. \<exists>df. download cfg yf (download_log self @ take m symbols) (symbols ! m) = Inr df"
      "download cfg yf (download_log self @ take n symbols) (symbols ! n) = Inl e"
    from get_price_history_first_raise [OF assms(1) this] r
    have "self\<lparr>download_log := calls'\<rparr>
            = self\<lparr>download_log := download_log self @ take (Suc n) symbols\<rparr>"
      by simp
    then have "download_log (self\<lparr>download_log := calls'\<rparr>)
            = download_log (self\<lparr>download_log := download_log self @ take (Suc n) symbols\<rparr>)"
      by (rule arg_cong)
    then show "calls' = download_log self @ take (Suc n) symbols" by simp
  qed
  have full: "(\<forall>m<length symbols.
               \<exists>df. download cfg yf (download_log self @ take m symbols) (symbols ! m) = Inr df)
              \<longrightarrow> calls' = download_log self @ symbols"
  proof
    assume "\<forall>m<length symbols.
               \<exists>df. download cfg yf (download_log self @ take m symbols) (symbols ! m) = Inr df"
    then obtain dfs where d: "length dfs = length symbols"
      "\<forall>m<length symbols.
         download cfg yf (download_log self @ take m symbols) (symbols ! m) = Inr (dfs ! m)"
      by (auto simp: Skolem_list_nth)
    from get_price_history_all_return [OF assms(1) d] r
    have "self\<lparr>download_log := calls'\<rparr>
            = self\<lparr>download_log := download_log self @ symbols\<rparr>"
      by (auto split: sum.splits)
    then have "download_log (self\<lparr>download_log := calls'\<rparr>)
            = download_log (self\<lparr>download_log := download_log self @ symbols\<rparr>)"
      by (rule arg_cong)
    then show "calls' = download_log self @ symbols" by simp
  qed
  have st: "snd (get_price_history cfg yf symbols self) = self\<lparr>download_log := calls'\<rparr>"
    using r by simp
  from r pc stop full later show ?thesis
    unfolding st by (intro exI [of _ calls'] conjI)
qed

theorem failure_leaves_cache_witness:
  "fst (get_price_history cfg0 yf_AB [''A'', ''Z''] fresh) = Inl (DownloadError ''Z'') \<and>
   price_cache (snd (get_price_history cfg0 yf_AB [''A'', ''Z''] fresh)) = None \<and>
   fst (get_price_history cfg0 yf_AB [''A'', ''B'']
          (snd (get_price_history cfg0 yf_AB [''A'', ''Z''] fresh))) = Inr aligned_AB \<and>
   fst (get_price_history cfg0 yf_dup [''A''] fresh) = Inl ValueError \<and>
   price_cache (snd (get_price_history cfg0 yf_dup [''A''] fresh)) = None"
proof -
  have c: "price_cache fresh = None" by (simp add: fresh_def)
  have h1: "(\<exists>n<length [''A'', ''Z''].
            (\<forall>m<n. \<exists>df. download cfg0 yf_AB (download_log fresh @ take m [''A'', ''Z''])
                             ([''A'', ''Z''] ! m) = Inr df) \<and>
            download cfg0 yf_AB (download_log fresh @ take n [''A'', ''Z''])
              ([''A'', ''Z''] ! n) = Inl (DownloadError ''Z'')) \<or>
         (\<exists>dfs. length dfs = length [''A'', ''Z''] \<and>
            (\<forall>m<length [''A'', ''Z''].
               download cfg0 yf_AB (download_log fresh @ take m [''A'', ''Z''])
                 ([''A'', ''Z''] ! m) = Inr (dfs ! m)) \<and>
            align (fold (\<lambda>(s, df). AList.update s df) (zip [''A'', ''Z''] dfs) [])
              = Inl (DownloadError ''Z''))"
    by (rule disjI1, rule exI [of _ 1]) (simp add: download_A download_Z)
  have h2: "(\<exists>n<length [''A''].
            (\<forall>m<n. \<exists>df. download cfg0 yf_dup (download_log fresh @ take m [''A''])
                             ([''A''] ! m) = Inr df) \<and>
            download cfg0 yf_dup (download_log fresh @ take n [''A''])
              ([''A''] ! n) = Inl ValueError) \<or>
         (\<exists>dfs. length dfs = length [''A''] \<and>
            (\<forall>m<length [''A''].
               download cfg0 yf_dup (download_log fresh @ take m [''A''])
                 ([''A''] ! m) = Inr (dfs ! m)) \<and>
            align (fold (\<lambda>(s, df). AList.update s df) (zip [''A''] dfs) []) = Inl ValueError)"
    by (rule disjI2, rule exI [of _ "[frame_dup]"]) (simp add: download_dup align_dup)
  from failure_leaves_cache [OF c h1, where cfg' = cfg0 and yf' = yf_AB
      and symbols' = "[''A'', ''B'']"] obtain calls' where
    r1: "get_price_history cfg0 yf_AB [''A'', ''Z''] fresh
           = (Inl (DownloadError ''Z''), fresh\<lparr>download_log := calls'\<rparr>)"
    and p1: "price_cache (snd (get_price_history cfg0 yf_AB [''A'', ''Z''] fresh))
           = price_cache fresh"
    and later: "\<forall>dfs' aligned'.
              length dfs' = length [''A'', ''B''] \<and>
              (\<forall>m<length [''A'', ''B''].
                 download cfg0 yf_AB (calls' @ take m [''A'', ''B'']) ([''A'', ''B''] ! m)
                   = Inr (dfs' ! m)) \<and>
              align (fold (\<lambda>(s, df). AList.update s df) (zip [''A'', ''B''] dfs') [])
                = Inr aligned'
              \<longrightarrow>
              get_price_history cfg0 yf_AB [''A'', ''B'']
                  (snd (get_price_history cfg0 yf_AB [''A'', ''Z''] fresh))
                = (Inr aligned',
                   fresh\<lparr>price_cache := Some aligned',
                        download_log := calls' @ [''A'', ''B'']\<rparr>)"
    by blast
  have pre: "length [frame_A, frame_B] = length [''A'', ''B''] \<and>
              (\<forall>m<length [''A'', ''B''].
                 download cfg0 yf_AB (calls' @ take m [''A'', ''B'']) ([''A'', ''B''] ! m)
                   = Inr ([frame_A, frame_B] ! m)) \<and>
              align (fold (\<lambda>(s, df). AList.update s df)
                       (zip [''A'', ''B''] [frame_A, frame_B]) [])
                = Inr aligned_AB"
    using align_AB by (simp add: All_less_Suc download_A download_B frames_AB_def)
  from later pre have r2: "get_price_history cfg0 yf_AB [''A'', ''B'']
                  (snd (get_price_history cfg0 yf_AB [''A'', ''Z''] fresh))
                = (Inr aligned_AB,
                   fresh\<lparr>price_cache := Some aligned_AB,
                        download_log := calls' @ [''A'', ''B'']\<rparr>)"
    by blast
  from failure_leaves_cache [OF c h2, where cfg' = cfg0 and yf' = yf_AB and symbols' = "[]"] obtain calls'' where
    r3: "get_price_history cfg0 yf_dup [''A''] fresh
           = (Inl ValueError, fresh\<lparr>download_log := calls''\<rparr>)"
    and p3: "price_cache (snd (get_price_history cfg0 yf_dup [''A''] fresh))
           = price_cache fresh"
    by blast
  have f1: "fst (get_price_history cfg0 yf_AB [''A'', ''Z''] fresh) = Inl (DownloadError ''Z'')"
    by (simp only: r1 fst_conv)
  have f2: "price_cache (snd (get_price_history cfg0 yf_AB [''A'', ''Z''] fresh)) = None"
    by (simp only: p1 c)
  have f3: "fst (get_price_history cfg0 yf_AB [''A'', ''B'']
          (snd (get_price_history cfg0 yf_AB [''A'', ''Z''] fresh))) = Inr aligned_AB"
    by (simp only: r2 fst_conv)
  have f4: "fst (get_price_history cfg0 yf_dup [''A''] fresh) = Inl ValueError"
    by (simp only: r3 fst_conv)
  have f5: "price_cache (snd (get_price_history cfg0 yf_dup [''A''] fresh)) = None"
    by (simp only: p3 c)
  from f1 f2 f3 f4 f5 show ?thesis by (intro conjI)
qed

section \<open>Clearing the cache and downloading again\<close>

lemma fetch_loop_ok_log:
  "fetch_loop cfg yf symbols frames calls = (Inr fs, calls') \<Longrightarrow> calls' = calls @ symbols"
proof (induction symbols arbitrary: frames calls)
  case Nil
  then show ?case by simp
next
  case (Cons s symbols)
  from Cons.prems obtain df where
    "fetch_loop cfg yf symbols (AList.update s df frames) (calls @ [s]) = (Inr fs, calls')"
    by (auto split: sum.splits)
  from Cons.IH [OF this] show ?case by simp
qed

lemma fetch_loop_raise_log:
  "fetch_loop cfg yf symbols frames calls = (Inl e, calls') \<Longrightarrow>
     \<exists>n<length symbols. calls' = calls @ take (Suc n) symbols \<and>
        download cfg yf (calls @ take n symbols) (symbols ! n) = Inl e"
proof (induction symbols arbitrary: frames calls)
  case Nil
  then show ?case by simp
next
  case (Cons s symbols)
  show ?case
  proof (cases "download cfg yf calls s")
    case (Inl e')
    with Cons.prems have "e' = e" "calls' = calls @ [s]" by simp_all
    with Inl have "0 < length (s # symbols) \<and> calls' = calls @ take (Suc 0) (s # symbols) \<and>
        download cfg yf (calls @ take 0 (s # symbols)) ((s # symbols) ! 0) = Inl e"
      by simp
    then show ?thesis by blast
  next
    case (Inr df)
    with Cons.prems have
      "fetch_loop cfg yf symbols (AList.update s df frames) (calls @ [s]) = (Inl e, calls')"
      by simp
    from Cons.IH [OF this] obtain n where n: "n < length symbols"
      "calls' = (calls @ [s]) @ take (Suc n) symbols"
      "download cfg yf ((calls @ [s]) @ take n symbols) (symbols ! n) = Inl e"
      by blast
    then have "Suc n < length (s # symbols) \<and>
        calls' = calls @ take (Suc (Suc n)) (s # symbols) \<and>
        download cfg yf (calls @ take (Suc n) (s # symbols)) ((s # symbols) ! Suc n) = Inl e"
      by simp
    then show ?thesis by blast
  qed
qed

lemma get_price_history_log:
  "price_cache self = None \<Longrightarrow>
     download_log (snd (get_price_history cfg yf symbols self))
       = snd (fetch_loop cfg yf symbols [] (download_log self))"
  by (simp add: get_price_history_def download_and_align_def split: prod.splits sum.splits)

lemma gph_ZA:
  "get_price_history cfg0 yf_AB [''Z'', ''A''] (clear_cache fresh)
     = (Inl (DownloadError ''Z''), \<lparr>price_cache = None, download_log = [''Z'']\<rparr>)"
  by (simp add: get_price_history_def download_and_align_def download_def yf_AB_def
      clear_cache_def fresh_def cfg0_def)

text \<open>
  C7, as the code has it: \<open>clear_cache\<close> empties the cache whatever it held, and a second
  \<open>clear_cache\<close> changes nothing. The first \<open>get_price_history\<close> after it calls the
  provider once per entry of the symbol list, in list order, and stops at the first
  download that raises. Either every entry downloads, and the calls made are exactly the
  entries of the list, one call each; or entry number \<open>n\<close> is the first whose download
  raises (all entries before it download), and the calls made are the entries up to and
  including that one, none after it.
\<close>

theorem clear_cache_then_downloads:
  "clear_cache (clear_cache self) = clear_cache self \<and>
   price_cache (clear_cache self) = None \<and>
   (((\<forall>m<length symbols.
        \<exists>df. download cfg yf (download_log self @ take m symbols) (symbols ! m) = Inr df) \<and>
     download_log (snd (get_price_history cfg yf symbols (clear_cache self)))
       = download_log self @ symbols) \<or>
    (\<exists>e n. n < length symbols \<and>
       (\<forall>m<n. \<exists>df. download cfg yf (download_log self @ take m symbols) (symbols ! m)
                      = Inr df) \<and>
       download cfg yf (download_log self @ take n symbols) (symbols ! n) = Inl e \<and>
       download_log (snd (get_price_history cfg yf symbols (clear_cache self)))
         = download_log self @ take (Suc n) symbols))"
proof -
  let ?st = "clear_cache self"
  have c: "price_cache ?st = None"
    and l: "download_log ?st = download_log self"
    by (simp_all add: clear_cache_def)
  have idem: "clear_cache ?st = ?st"
    by (simp add: clear_cache_def)
  from downloads_return_or_first_raise [of symbols cfg yf "download_log self"]
  have "((\<forall>m<length symbols.
        \<exists>df. download cfg yf (download_log self @ take m symbols) (symbols ! m) = Inr df) \<and>
     download_log (snd (get_price_history cfg yf symbols ?st))
       = download_log self @ symbols) \<or>
    (\<exists>e n. n < length symbols \<and>
       (\<forall>m<n. \<exists>df. download cfg yf (download_log self @ take m symbols) (symbols ! m)
                      = Inr df) \<and>
       download cfg yf (download_log self @ take n symbols) (symbols ! n) = Inl e \<and>
       download_log (snd (get_price_history cfg yf symbols ?st))
         = download_log self @ take (Suc n) symbols)"
  proof
    assume "\<exists>dfs. length dfs = length symbols \<and>
      (\<forall>m<length symbols.
         download cfg yf (download_log self @ take m symbols) (symbols ! m) = Inr (dfs ! m))"
    then obtain dfs where len: "length dfs = length symbols"
      and d: "\<forall>m<length symbols.
         download cfg yf (download_log self @ take m symbols) (symbols ! m) = Inr (dfs ! m)"
      by blast
    from d have d': "\<forall>m<length symbols.
         download cfg yf (download_log ?st @ take m symbols) (symbols ! m) = Inr (dfs ! m)"
      by (simp only: l)
    have "download_log (snd (get_price_history cfg yf symbols ?st))
            = download_log self @ symbols"
      using get_price_history_all_return [OF c len d'] l by (simp split: sum.splits)
    moreover from d have "\<forall>m<length symbols.
        \<exists>df. download cfg yf (download_log self @ take m symbols) (symbols ! m) = Inr df"
      by blast
    ultimately show ?thesis by blast
  next
    assume "\<exists>e n. n < length symbols \<and>
      (\<forall>m<n. \<exists>df. download cfg yf (download_log self @ take m symbols) (symbols ! m)
                     = Inr df) \<and>
      download cfg yf (download_log self @ take n symbols) (symbols ! n) = Inl e"
    then obtain e n where n: "n < length symbols"
      and b: "\<forall>m<n. \<exists>df. download cfg yf (download_log self @ take m symbols) (symbols ! m)
                     = Inr df"
      and r: "download cfg yf (download_log self @ take n symbols) (symbols ! n) = Inl e"
      by blast
    from b have b': "\<forall>m<n. \<exists>df.
        download cfg yf (download_log ?st @ take m symbols) (symbols ! m) = Inr df"
      by (simp only: l)
    from r have r': "download cfg yf (download_log ?st @ take n symbols) (symbols ! n) = Inl e"
      by (simp only: l)
    have "download_log (snd (get_price_history cfg yf symbols ?st))
            = download_log self @ take (Suc n) symbols"
      using get_price_history_first_raise [OF c n b' r'] l by simp
    with n b r show ?thesis by blast
  qed
  with c idem show ?thesis by (simp only: simp_thms)
qed

theorem clear_cache_then_downloads_witness:
  "clear_cache (clear_cache warm) = clear_cache warm \<and>
   price_cache (clear_cache warm) = None \<and>
   download_log (snd (get_price_history cfg0 yf_AB [''B'', ''A''] (clear_cache warm)))
     = [''A'', ''B'', ''B'', ''A''] \<and>
   download_log (snd (get_price_history cfg0 yf_AB [''Z'', ''A''] (clear_cache fresh)))
     = [''Z'']"
proof -
  note t1 = clear_cache_then_downloads [of warm "[''B'', ''A'']" cfg0 yf_AB]
  note t2 = clear_cache_then_downloads [of fresh "[''Z'', ''A'']" cfg0 yf_AB]
  have no1: "\<not> (\<exists>e n. n < length [''B'', ''A''] \<and>
       (\<forall>m<n. \<exists>df. download cfg0 yf_AB (download_log warm @ take m [''B'', ''A''])
                      ([''B'', ''A''] ! m) = Inr df) \<and>
       download cfg0 yf_AB (download_log warm @ take n [''B'', ''A'']) ([''B'', ''A''] ! n)
         = Inl e \<and>
       download_log (snd (get_price_history cfg0 yf_AB [''B'', ''A''] (clear_cache warm)))
         = download_log warm @ take (Suc n) [''B'', ''A''])"
  proof
    assume "\<exists>e n. n < length [''B'', ''A''] \<and>
       (\<forall>m<n. \<exists>df. download cfg0 yf_AB (download_log warm @ take m [''B'', ''A''])
                      ([''B'', ''A''] ! m) = Inr df) \<and>
       download cfg0 yf_AB (download_log warm @ take n [''B'', ''A'']) ([''B'', ''A''] ! n)
         = Inl e \<and>
       download_log (snd (get_price_history cfg0 yf_AB [''B'', ''A''] (clear_cache warm)))
         = download_log warm @ take (Suc n) [''B'', ''A'']"
    then obtain e n where n: "n < length [''B'', ''A'']"
      and d: "download cfg0 yf_AB (download_log warm @ take n [''B'', ''A''])
                ([''B'', ''A''] ! n) = Inl e"
      by blast
    from n have "n = 0 \<or> n = 1" by auto
    then show False
    proof
      assume "n = 0"
      with d download_B show False by simp
    next
      assume "n = 1"
      with d download_A show False by simp
    qed
  qed
  from t1 no1 have r1: "download_log (snd (get_price_history cfg0 yf_AB [''B'', ''A'']
        (clear_cache warm))) = download_log warm @ [''B'', ''A'']"
    by blast
  have no2: "\<not> (\<forall>m<length [''Z'', ''A''].
        \<exists>df. download cfg0 yf_AB (download_log fresh @ take m [''Z'', ''A''])
               ([''Z'', ''A''] ! m) = Inr df)"
  proof
    assume "\<forall>m<length [''Z'', ''A''].
        \<exists>df. download cfg0 yf_AB (download_log fresh @ take m [''Z'', ''A''])
               ([''Z'', ''A''] ! m) = Inr df"
    moreover have "(0::nat) < length [''Z'', ''A'']" by simp
    ultimately have "\<exists>df. download cfg0 yf_AB (download_log fresh @ take 0 [''Z'', ''A''])
               ([''Z'', ''A''] ! 0) = Inr df"
      by blast
    then show False by (simp add: download_Z)
  qed
  from t2 no2 obtain e n where n: "n < length [''Z'', ''A'']"
    and b: "\<forall>m<n. \<exists>df. download cfg0 yf_AB (download_log fresh @ take m [''Z'', ''A''])
                      ([''Z'', ''A''] ! m) = Inr df"
    and lg: "download_log (snd (get_price_history cfg0 yf_AB [''Z'', ''A'']
        (clear_cache fresh))) = download_log fresh @ take (Suc n) [''Z'', ''A'']"
    by blast
  have "n = 0"
  proof (rule ccontr)
    assume "n \<noteq> 0"
    then have "0 < n" by simp
    with b have "\<exists>df. download cfg0 yf_AB (download_log fresh @ take 0 [''Z'', ''A''])
               ([''Z'', ''A''] ! 0) = Inr df"
      by blast
    then show False by (simp add: download_Z)
  qed
  with lg have r2: "download_log (snd (get_price_history cfg0 yf_AB [''Z'', ''A'']
        (clear_cache fresh))) = [''Z'']"
    by (simp add: fresh_def)
  from t1 have i: "clear_cache (clear_cache warm) = clear_cache warm"
    and p: "price_cache (clear_cache warm) = None"
    by blast+
  from r1 have r1': "download_log (snd (get_price_history cfg0 yf_AB [''B'', ''A'']
        (clear_cache warm))) = [''A'', ''B'', ''B'', ''A'']"
    by (simp add: warm_def)
  from i p r1' r2 show ?thesis by (intro conjI)
qed

text \<open>
  A call whose first download raises: the loop ends there, and the second symbol of the
  list, though requested, is never downloaded.
\<close>

theorem clear_cache_partial_downloads:
  "download_log (snd (get_price_history cfg0 yf_AB [''Z'', ''A''] (clear_cache fresh))) = [''Z''] \<and>
   count_list (download_log (snd (get_price_history cfg0 yf_AB [''Z'', ''A''] (clear_cache fresh))))
     ''A'' = 0"
  by (simp add: gph_ZA)

text \<open>
  C8: with an empty cache and an empty symbol list, \<open>get_price_history\<close> returns the empty
  panel and does not raise (and stores the empty panel as the cache).
\<close>

theorem no_symbols_empty_panel:
  "get_price_history cfg yf [] (self\<lparr>price_cache := None\<rparr>)
     = (Inr [], self\<lparr>price_cache := Some []\<rparr>)"
  by (simp add: get_price_history_def download_and_align_def align_def)

theorem no_symbols_empty_panel_witness:
  "get_price_history cfg0 yf_down [] fresh
     = (Inr [], \<lparr>price_cache = Some [], download_log = []\<rparr>)"
  using no_symbols_empty_panel [of cfg0 yf_down fresh] by (simp add: fresh_def)

section \<open>Properties of the validation\<close>

lemma get_price_history_aligns:
  assumes "price_cache self = None"
    and "fst (get_price_history cfg yf symbols self) = Inr aligned"
  shows "\<exists>frames. fst (fetch_loop cfg yf symbols [] (download_log self)) = Inr frames \<and>
           align frames = Inr aligned"
  using assms
  by (auto simp: get_price_history_def download_and_align_def split: prod.splits sum.splits)

lemma rows_loop_malformed:
  "(d, row) \<in> set zs \<Longrightarrow> Price row = None \<or> Quantity row = None \<Longrightarrow>
     rows_loop zs trades = Inl ValueError"
proof (induction zs arbitrary: trades)
  case Nil
  then show ?case by simp
next
  case (Cons z zs)
  obtain d' row' where z: "z = (d', row')" by (cases z)
  show ?case
  proof (cases "Price row' = None \<or> Quantity row' = None")
    case True
    with z show ?thesis by (auto split: option.splits)
  next
    case False
    with Cons.prems z have "(d, row) \<in> set zs" by auto
    from Cons.IH [OF this Cons.prems(2)] False z show ?thesis by auto
  qed
qed

lemma those_map_Some:
  "those (map f xs) = Some ys \<Longrightarrow> map snd (zip ys xs) = xs"
proof (induction xs arbitrary: ys)
  case Nil
  then show ?case by simp
next
  case (Cons x xs)
  then show ?case by (auto split: option.splits)
qed

lemma load_trades_missing_file: "load_trades (Inl e) = Inl e"
  by (simp add: load_trades_def)

lemma load_trades_malformed:
  assumes "row \<in> set df"
    and "Date row = None \<or> Price row = None \<or> Quantity row = None"
  shows "load_trades (Inr df) = Inl ValueError"
proof (cases "those (map Date df)")
  case None
  then show ?thesis by (simp add: load_trades_def)
next
  case (Some dates)
  from those_map_Some [OF Some] assms(1) have "row \<in> snd ` set (zip dates df)"
    by (metis set_map)
  then obtain d where m: "(d, row) \<in> set (zip dates df)" by auto
  have "Date row \<noteq> None"
  proof
    assume "Date row = None"
    with assms(1) have "None \<in> set (map Date df)" by force
    then have "those (map Date df) = None"
      by (induction df) (auto split: option.splits)
    with Some show False by simp
  qed
  with assms(2) have "Price row = None \<or> Quantity row = None" by simp
  from rows_loop_malformed [OF m this] Some show ?thesis by (simp add: load_trades_def)
qed

lemma check_symbols_iff:
  "check_symbols symbols price_data \<longleftrightarrow>
     (\<forall>s\<in>set symbols. \<exists>df. map_of price_data s = Some df \<and> \<not> empty_df df)"
  by (induction symbols) (auto split: option.splits)

lemma load_trades_sheet1:
  "load_trades sheet1
     = Inr [\<lparr>date = 1, ticker = ''A'', price = 10, quantity = 2,
             direction = [0x42, 0x75, 0x79]\<rparr>]"
  by (simp add: load_trades_def sheet1_def strip_def is_space_def)

text \<open>
  What the validation returns, for every input: it never raises, and its verdict is
  \<open>True\<close> exactly when the trades load, there is at least one trade, the call of
  \<open>get_price_history\<close> returns a panel, and every tracked symbol has an entry in that panel
  whose frame has at least one row and one column.
\<close>

lemma validate_data_integrity_result:
  "fst (validate_data_integrity cfg read_excel yf self) =
     Inr (\<exists>trades price_data.
           load_trades read_excel = Inr trades \<and> trades \<noteq> [] \<and>
           fst (get_price_history cfg yf (tracked_symbols cfg) self) = Inr price_data \<and>
           (\<forall>s\<in>set (tracked_symbols cfg).
              \<exists>df. map_of price_data s = Some df \<and> \<not> empty_df df))"
proof (cases "load_trades read_excel")
  case (Inl e)
  then show ?thesis by (simp add: validate_data_integrity_def validate_body_def)
next
  case (Inr trades)
  show ?thesis
  proof (cases "trades = []")
    case True
    with Inr show ?thesis by (simp add: validate_data_integrity_def validate_body_def)
  next
    case False
    obtain r self' where g: "get_price_history cfg yf (tracked_symbols cfg) self = (r, self')"
      by (cases "get_price_history cfg yf (tracked_symbols cfg) self")
    show ?thesis
    proof (cases r)
      case (Inl e)
      with Inr False g show ?thesis
        by (simp add: validate_data_integrity_def validate_body_def)
    next
      case r: (Inr price_data)
      with Inr False g show ?thesis
        by (simp add: validate_data_integrity_def validate_body_def check_symbols_iff)
    qed
  qed
qed

lemma gph_AE:
  "get_price_history cfg_AE yf_AB [''A'', ''E''] fresh
     = (Inr [(''A'', aligned_A), (''E'', aligned_E)],
        \<lparr>price_cache = Some [(''A'', aligned_A), (''E'', aligned_E)],
          download_log = [''A'', ''E'']\<rparr>)"
  by (simp add: get_price_history_def download_and_align_def download_def fresh_def
      yf_AB_def handle_multiindex_def frame_A_def frame_E_def cfg_AE_def
      align_def complete_dates_code aligned_A_def aligned_E_def reindex_def ffill_def)

text \<open>
  C4 at a concrete input: A and E are tracked, the spreadsheet holds a trade, the cache is
  empty, and the provider returns five rows for A and a table with no rows for E. No
  price is available for E, and the validation returns \<open>True\<close>: the frame of E was
  reindexed onto the dates of A before the check, so it has five rows of NaN and is not
  \<open>empty\<close>.
\<close>

theorem validation_passes_without_prices:
  "yf_AB 1 ''E'' (start_date cfg_AE) (tomorrow cfg_AE) = Inr frame_E \<and>
   index frame_E = [] \<and>
   validate_data_integrity cfg_AE sheet1 yf_AB fresh
     = (Inr True, \<lparr>price_cache = Some [(''A'', aligned_A), (''E'', aligned_E)],
                   download_log = [''A'', ''E'']\<rparr>) \<and>
   data aligned_E = [[None, None, None, None, None]]"
proof -
  have t: "tracked_symbols cfg_AE = [''A'', ''E'']" by (simp add: cfg_AE_def)
  have e: "\<not> empty_df aligned_A" "\<not> empty_df aligned_E"
    by (simp_all add: empty_df_def aligned_A_def aligned_E_def)
  have "validate_data_integrity cfg_AE sheet1 yf_AB fresh
     = (Inr True, \<lparr>price_cache = Some [(''A'', aligned_A), (''E'', aligned_E)],
                   download_log = [''A'', ''E'']\<rparr>)"
    by (simp add: validate_data_integrity_def validate_body_def load_trades_sheet1 t gph_AE e)
  then show ?thesis
    by (simp add: yf_AB_def frame_E_def aligned_E_def)
qed

lemma check_symbols_absent:
  "symbol \<in> set symbols \<Longrightarrow> map_of price_data symbol = None \<Longrightarrow>
     \<not> check_symbols symbols price_data"
  unfolding check_symbols_iff by (auto intro!: bexI [of _ symbol])

text \<open>
  C10: when the cache holds a panel that lacks a tracked symbol, the validation returns
  \<open>False\<close> and leaves the service as it is: the download log does not grow, so the
  provider is not called. The state being unchanged, \<open>get_price_history\<close> goes on
  returning that panel and every later validation returns \<open>False\<close> again, until
  \<open>clear_cache\<close>; after \<open>clear_cache\<close> the cache is empty.
\<close>

theorem stale_cache_fails_validation:
  assumes "price_cache self = Some cached"
    and "symbol \<in> set (tracked_symbols cfg)"
    and "map_of cached symbol = None"
  shows "validate_data_integrity cfg read_excel yf self = (Inr False, self) \<and>
         get_price_history cfg' yf' symbols' self = (Inr cached, self) \<and>
         price_cache (clear_cache self) = None"
proof -
  have g: "get_price_history cfg yf (tracked_symbols cfg) self = (Inr cached, self)"
    by (rule get_price_history_cached [OF assms(1)])
  have c: "\<not> check_symbols (tracked_symbols cfg) cached"
    by (rule check_symbols_absent [OF assms(2,3)])
  have "validate_data_integrity cfg read_excel yf self = (Inr False, self)"
    using g c by (simp add: validate_data_integrity_def validate_body_def split: sum.splits)
  then show ?thesis
    using get_price_history_cached [OF assms(1)] by (simp add: clear_cache_def)
qed

theorem stale_cache_fails_validation_witness:
  "get_price_history cfg0 yf_AB [] fresh = (Inr [], stale) \<and>
   validate_data_integrity cfg0 sheet1 yf_AB stale = (Inr False, stale) \<and>
   download_log stale = []"
proof -
  have a: "price_cache stale = Some []" by (simp add: stale_def)
  have b: "''A'' \<in> set (tracked_symbols cfg0)" by (simp add: cfg0_def)
  have c: "map_of ([] :: panel) ''A'' = None" by simp
  have d: "get_price_history cfg0 yf_AB [] fresh = (Inr [], stale)"
    by (simp add: get_price_history_def download_and_align_def align_def fresh_def stale_def)
  from stale_cache_fails_validation [OF a b c, of sheet1 yf_AB] d
  show ?thesis by (simp add: stale_def)
qed

section \<open>Empty downloads and column labels\<close>

lemma reindex_all_total:
  "\<forall>(t, f)\<in>set frames. distinct (index f) \<Longrightarrow> \<exists>aligned. reindex_all cal frames = Inr aligned"
proof (induction frames)
  case Nil
  then show ?case by simp
next
  case (Cons p frames)
  obtain t f where p: "p = (t, f)" by (cases p)
  from Cons.prems p have d: "distinct (index f)" by simp
  from Cons.prems have "\<forall>(t, f)\<in>set frames. distinct (index f)" by simp
  from Cons.IH [OF this] obtain rest' where "reindex_all cal frames = Inr rest'" by blast
  with d p show ?case by (simp add: reindex_def)
qed

lemma ffill_col_all_missing: "ffill_col None (replicate n None) = replicate n None"
  by (induction n) simp_all

lemma reindex_rowless:
  assumes "index df = []"
  shows "\<exists>r. reindex df cal = Inr r \<and> index (ffill r) = cal \<and>
             data (ffill r) = map (\<lambda>col. replicate (length cal) None) (data df)"
  using assms by (simp add: reindex_def ffill_def map_replicate_const ffill_col_all_missing)

lemma all_dates_without_rowless:
  assumes "(s, df) \<in> set frames" and "index df = []"
  shows "all_dates frames = (\<Union>f\<in>snd ` (set frames - {(s, df)}). set (index f))"
proof -
  have "(\<Union>f\<in>snd ` set frames. set (index f))
          = (\<Union>f\<in>snd ` (set frames - {(s, df)}). set (index f))"
    using assms by force
  then show ?thesis by (simp add: all_dates_eq)
qed

text \<open>
  C9: let the series of symbol \<open>s\<close> have no rows, and let every series have a date index
  free of duplicates (as a price series has). Then the alignment returns a panel; the
  calendar holds exactly the dates of the other entries, the empty series adding none;
  and the entry of \<open>s\<close> in the panel has the calendar as its index and NaN in every cell.
\<close>

theorem empty_series_all_missing:
  assumes "map_of frames s = Some df"
    and "index df = []"
    and "\<forall>(t, f)\<in>set frames. distinct (index f)"
  shows "\<exists>aligned g. align frames = Inr aligned \<and> map_of aligned s = Some g \<and>
           set (complete_dates frames)
             = (\<Union>f\<in>snd ` (set frames - {(s, df)}). set (index f)) \<and>
           index g = complete_dates frames \<and>
           data g = map (\<lambda>col. replicate (length (complete_dates frames)) None) (data df)"
proof -
  let ?cal = "complete_dates frames"
  from assms(1) have mem: "(s, df) \<in> set frames" by (rule map_of_SomeD)
  then have ne: "frames \<noteq> []" by auto
  from reindex_all_total [OF assms(3)] obtain aligned where
    ra: "reindex_all ?cal frames = Inr aligned" by blast
  with ne have al: "align frames = Inr aligned" by (simp add: align_def)
  have "s \<in> fst ` set frames" using mem by force
  then have "s \<in> fst ` set aligned" using reindex_all_keys [OF ra] by (metis set_map)
  then obtain g where g: "map_of aligned s = Some g"
    by (metis map_of_eq_None_iff not_Some_eq)
  from reindex_all_lookup [OF ra g] assms(1) obtain r where
    r: "reindex df ?cal = Inr r" and gr: "g = ffill r" by auto
  from reindex_rowless [OF assms(2), of ?cal] r gr have
    "index g = ?cal" "data g = map (\<lambda>col. replicate (length ?cal) None) (data df)"
    by simp_all
  moreover have "set ?cal = (\<Union>f\<in>snd ` (set frames - {(s, df)}). set (index f))"
    using complete_dates_props(3) [of frames] all_dates_without_rowless [OF mem assms(2)]
    by simp
  ultimately show ?thesis using al g by blast
qed

lemma align_AE:
  "align [(''A'', frame_A), (''E'', frame_E)] = Inr [(''A'', aligned_A), (''E'', aligned_E)]"
  by (simp add: align_def complete_dates_code frame_A_def frame_E_def aligned_A_def
      aligned_E_def reindex_def ffill_def)

theorem empty_series_all_missing_witness:
  "align [(''A'', frame_A), (''E'', frame_E)] = Inr [(''A'', aligned_A), (''E'', aligned_E)] \<and>
   index aligned_E = [1, 2, 3, 4, 5] \<and>
   data aligned_E = [[None, None, None, None, None]] \<and>
   set (complete_dates [(''A'', frame_A), (''E'', frame_E)]) = set (index frame_A)"
proof -
  let ?frames = "[(''A'', frame_A), (''E'', frame_E)]"
  have a: "map_of ?frames ''E'' = Some frame_E" by simp
  have b: "index frame_E = []" by (simp add: frame_E_def)
  have c: "\<forall>(t, f)\<in>set ?frames. distinct (index f)"
    by (simp add: frame_A_def frame_E_def)
  have d: "set ?frames - {(''E'', frame_E)} = {(''A'', frame_A)}" by auto
  have "\<exists>aligned g. align ?frames = Inr aligned \<and> map_of aligned ''E'' = Some g \<and>
           set (complete_dates ?frames) = (\<Union>f\<in>snd ` {(''A'', frame_A)}. set (index f)) \<and>
           index g = complete_dates ?frames \<and>
           data g = map (\<lambda>col. replicate (length (complete_dates ?frames)) None) (data frame_E)"
    using empty_series_all_missing [OF a b c] unfolding d .
  then have "set (complete_dates ?frames) = (\<Union>f\<in>snd ` {(''A'', frame_A)}. set (index f))"
    by blast
  then have "set (complete_dates ?frames) = set (index frame_A)" by simp
  then show ?thesis
    using align_AE by (simp add: aligned_E_def)
qed

subsection \<open>Column labels\<close>

lemma handle_multiindex_keeps:
  assumes "handle_multiindex df = Inr df'"
  shows "index df' = index df" "data df' = data df"
    "ncols (columns df') = ncols (columns df)"
  using assms
  by (auto simp: handle_multiindex_def droplevel1_def
      split: columns_axis.splits sum.splits if_splits)

lemma handle_multiindex_flat: "columns df = Index labels \<Longrightarrow> handle_multiindex df = Inr df"
  by (simp add: handle_multiindex_def)

lemma handle_multiindex_two_levels:
  "columns df = MultiIndex 2 tuples \<Longrightarrow>
     handle_multiindex df = Inr (df\<lparr>columns := Index (map level0 tuples)\<rparr>)"
  by (simp add: handle_multiindex_def droplevel1_def)

lemma align_keeps_columns:
  assumes "align frames = Inr aligned" and "map_of aligned s = Some g"
    and "map_of frames s = Some df"
  shows "columns g = columns df \<and> length (data g) = length (data df)"
proof -
  from align_lookup [OF assms(1,2)] assms(3) obtain r where
    "reindex df (complete_dates frames) = Inr r" "g = ffill r" by auto
  then show ?thesis by (auto simp: reindex_def ffill_def split: if_splits)
qed

lemma gph_ohlc:
  "get_price_history cfg0 yf_ohlc [''A''] fresh
     = (Inr [(''A'', aligned_ohlc)],
        \<lparr>price_cache = Some [(''A'', aligned_ohlc)], download_log = [''A'']\<rparr>)"
  by (simp add: get_price_history_def download_and_align_def download_def fresh_def
      yf_ohlc_def handle_multiindex_def droplevel1_def frame_ohlc_def cfg0_def
      align_def complete_dates_code aligned_ohlc_def reindex_def ffill_def)

lemma handle_multiindex_more_levels:
  "columns df = MultiIndex n tuples \<Longrightarrow> 2 < n \<Longrightarrow>
     handle_multiindex df
       = Inr (df\<lparr>columns := MultiIndex (n - 1) (map (\<lambda>t. take 1 t @ drop 2 t) tuples)\<rparr>)"
  by (simp add: handle_multiindex_def droplevel1_def)

lemma handle_multiindex_no_level1:
  "columns df = MultiIndex n tuples \<Longrightarrow> n < 2 \<Longrightarrow> handle_multiindex df = Inl IndexError"
  by (simp add: handle_multiindex_def droplevel1_def)

text \<open>
  C6, as the code has it: the handling of the columns keeps every column and every value
  of the frame the provider returns. A frame with flat column labels is left as it is; a
  frame with nested (\<open>MultiIndex\<close>) labels only has level 1 of the labels dropped: two-level
  labels become the flat list of their first entries, labels of more levels lose their
  second entry and keep the others in order (a \<open>MultiIndex\<close> of fewer than two levels has
  no level 1 and the download raises). The alignment keeps the columns too, so the panel
  entry carries one value per column and date, not one price field.
\<close>

theorem download_keeps_all_columns:
  assumes "yf (length calls) symbol (start_date cfg) (tomorrow cfg) = Inr df"
    and "download cfg yf calls symbol = Inr df'"
  shows "index df' = index df \<and> data df' = data df \<and>
         ncols (columns df') = ncols (columns df) \<and>
         (\<forall>labels. columns df = Index labels \<longrightarrow> df' = df) \<and>
         (\<forall>tuples. columns df = MultiIndex 2 tuples \<longrightarrow>
            columns df' = Index (map level0 tuples)) \<and>
         (\<forall>n tuples. columns df = MultiIndex n tuples \<and> 2 < n \<longrightarrow>
            columns df' = MultiIndex (n - 1) (map (\<lambda>t. take 1 t @ drop 2 t) tuples)) \<and>
         (\<forall>n tuples. columns df = MultiIndex n tuples \<longrightarrow> 2 \<le> n) \<and>
         (\<forall>frames aligned g.
            map_of frames symbol = Some df' \<and> align frames = Inr aligned \<and>
            map_of aligned symbol = Some g \<longrightarrow>
            columns g = columns df' \<and> length (data g) = length (data df))"
proof -
  from assms have h: "handle_multiindex df = Inr df'" by (simp add: download_def)
  have flat: "\<forall>labels. columns df = Index labels \<longrightarrow> df' = df"
  proof (intro allI impI)
    fix labels assume "columns df = Index labels"
    from handle_multiindex_flat [OF this] h show "df' = df" by simp
  qed
  have two: "\<forall>tuples. columns df = MultiIndex 2 tuples \<longrightarrow>
            columns df' = Index (map level0 tuples)"
  proof (intro allI impI)
    fix tuples assume "columns df = MultiIndex 2 tuples"
    from handle_multiindex_two_levels [OF this] h show "columns df' = Index (map level0 tuples)"
      by auto
  qed
  have more: "\<forall>n tuples. columns df = MultiIndex n tuples \<and> 2 < n \<longrightarrow>
            columns df' = MultiIndex (n - 1) (map (\<lambda>t. take 1 t @ drop 2 t) tuples)"
  proof (intro allI impI, elim conjE)
    fix n tuples assume "columns df = MultiIndex n tuples" "2 < n"
    from handle_multiindex_more_levels [OF this] h
    show "columns df' = MultiIndex (n - 1) (map (\<lambda>t. take 1 t @ drop 2 t) tuples)"
      by auto
  qed
  have least: "\<forall>n tuples. columns df = MultiIndex n tuples \<longrightarrow> 2 \<le> n"
  proof (intro allI impI, rule ccontr)
    fix n tuples assume c: "columns df = MultiIndex n tuples" and "\<not> 2 \<le> n"
    then have "n < 2" by simp
    from handle_multiindex_no_level1 [OF c this] h show False by simp
  qed
  have al: "\<forall>frames aligned g.
            map_of frames symbol = Some df' \<and> align frames = Inr aligned \<and>
            map_of aligned symbol = Some g \<longrightarrow>
            columns g = columns df' \<and> length (data g) = length (data df)"
  proof (intro allI impI)
    fix frames aligned g
    assume a: "map_of frames symbol = Some df' \<and> align frames = Inr aligned \<and>
            map_of aligned symbol = Some g"
    then have "columns g = columns df' \<and> length (data g) = length (data df')"
      using align_keeps_columns [of frames aligned symbol g df'] by blast
    with handle_multiindex_keeps(2) [OF h]
    show "columns g = columns df' \<and> length (data g) = length (data df)" by simp
  qed
  from handle_multiindex_keeps [OF h] have
    "index df' = index df \<and> data df' = data df \<and> ncols (columns df') = ncols (columns df)"
    by simp
  with flat two more least al show ?thesis by (simp only: simp_thms)
qed

theorem download_keeps_all_columns_witness:
  "download cfg0 yf_ohlc [] ''A''
     = Inr \<lparr>columns = Index [''Close'', ''Open''], index = [1, 2],
            data = [[Some 10, Some 11], [Some 9, Some 10]]\<rparr> \<and>
   data frame_ohlc = [[Some 10, Some 11], [Some 9, Some 10]] \<and>
   ncols (columns frame_ohlc) = 2 \<and>
   download cfg0 yf_lv3 [] ''A''
     = Inr \<lparr>columns = MultiIndex 2 [[''Close'', ''USD''], [''Open'', ''USD'']], index = [1],
            data = [[Some 10], [Some 9]]\<rparr>"
proof -
  let ?df' = "\<lparr>columns = Index [''Close'', ''Open''], index = [1, 2],
               data = [[Some 10, Some 11], [Some 9, Some (10::real)]]\<rparr>"
  have a: "yf_ohlc (length ([]::string list)) ''A'' (start_date cfg0) (tomorrow cfg0)
             = Inr frame_ohlc"
    by (simp add: yf_ohlc_def)
  have b: "download cfg0 yf_ohlc [] ''A'' = Inr ?df'"
    by (simp add: download_def yf_ohlc_def handle_multiindex_def droplevel1_def
        frame_ohlc_def)
  from download_keeps_all_columns [OF a b] have "data ?df' = data frame_ohlc"
    "ncols (columns ?df') = ncols (columns frame_ohlc)"
    by blast+
  with b have first: "download cfg0 yf_ohlc [] ''A'' = Inr ?df' \<and>
      data frame_ohlc = [[Some 10, Some 11], [Some 9, Some 10]] \<and>
      ncols (columns frame_ohlc) = 2"
    by simp
  have a3: "yf_lv3 (length ([]::string list)) ''A'' (start_date cfg0) (tomorrow cfg0)
             = Inr frame_lv3"
    by (simp add: yf_lv3_def)
  obtain g where b3: "download cfg0 yf_lv3 [] ''A'' = Inr g"
    by (simp add: download_def yf_lv3_def handle_multiindex_def droplevel1_def frame_lv3_def)
  have c3: "columns frame_lv3
      = MultiIndex 3 [[''Close'', ''A'', ''USD''], [''Open'', ''A'', ''USD'']] \<and> (2::nat) < 3"
    by (simp add: frame_lv3_def)
  from download_keeps_all_columns [OF a3 b3] c3 have
    "index g = index frame_lv3" "data g = data frame_lv3"
    "columns g = MultiIndex (3 - 1)
       (map (\<lambda>t. take 1 t @ drop 2 t) [[''Close'', ''A'', ''USD''], [''Open'', ''A'', ''USD'']])"
    by blast+
  then have "g = \<lparr>columns = MultiIndex 2 [[''Close'', ''USD''], [''Open'', ''USD'']],
                  index = [1], data = [[Some 10], [Some 9]]\<rparr>"
    by (cases g) (simp add: frame_lv3_def)
  with b3 first show ?thesis by simp
qed

text \<open>
  A provider frame with the two fields Close and Open under two-level labels: the panel
  entry still has both fields, so each date carries two values.
\<close>

theorem panel_entry_has_two_fields:
  "fst (get_price_history cfg0 yf_ohlc [''A''] fresh) = Inr [(''A'', aligned_ohlc)] \<and>
   columns aligned_ohlc = Index [''Close'', ''Open''] \<and>
   value_at aligned_ohlc 1 0 = Some 10 \<and>
   value_at aligned_ohlc 1 1 = Some 9"
  by (simp add: gph_ohlc) (simp add: aligned_ohlc_def value_at_def)

end
